theory Spec2Isabelle
  imports Main
begin

section \<open>Cells, signals and the producer capability\<close>

text \<open>
  A cell is a heap object of type \<open>DType\<close>: its address and its content.
  The pipe only moves pointers to cells between its two queues, the consumer
  and the producer thread.
\<close>

type_synonym 'a cell = "nat \<times> 'a"

datatype Signal = kProduce | kBeforeFirst | kDestroy

text \<open>Heap objects that \<open>delete\<close> is applied to; a log of them is kept in the state.\<close>

datatype obj = CellObj nat | ProducerObj nat | ThreadObj nat

text \<open>
  What a member function does when it is entered or resumed: it aborts the
  process (\<open>CHECK\<close>, \<open>LOG(FATAL)\<close>), it dereferences a null pointer or indexes
  a vector out of range (\<open>Crash\<close>), it sleeps on a condition variable or in
  \<open>join\<close>, or it returns.
\<close>

datatype 'r outcome = Abort | Crash | Blocks | Returns 'r

text \<open>
  Modelled from the spec: the Producer capability (the \<open>next\<close> and
  \<open>beforefirst\<close> closures handed to \<open>Init\<close>) is supplied by the caller.
  The deterministic producer over a finite list \<open>items\<close>: \<open>next\<close> fills the
  cell it is given, or allocates one when the handle is empty, and returns
  false at the end, leaving the handle as it was; \<open>reset\<close> rewinds. A
  producer need not supply a reset: \<open>Init\<close>'s default for \<open>beforefirst\<close> and
  the default of \<open>Producer::BeforeFirst\<close> are \<open>NotImplemented\<close>, which is
  \<open>LOG(FATAL)\<close>. \<open>has_reset\<close> tells which of the two the producer has, and
  \<open>producer_BeforeFirst\<close> is \<open>None\<close> when the call is fatal.
\<close>

record 'a producer =
  items :: "'a list"
  rest :: "'a list"
  fresh :: nat
  has_reset :: bool

definition producer_Next ::
    "'a producer \<Rightarrow> 'a cell option \<Rightarrow> bool \<times> 'a cell option \<times> 'a producer" where
  "producer_Next p c =
     (case rest p of
        [] \<Rightarrow> (False, c, p)
      | x # xs \<Rightarrow>
         (case c of
            None \<Rightarrow> (True, Some (fresh p, x), p\<lparr>rest := xs, fresh := Suc (fresh p)\<rparr>)
          | Some old \<Rightarrow> (True, Some (fst old, x), p\<lparr>rest := xs\<rparr>)))"

definition rewound :: "'a producer \<Rightarrow> 'a producer" where
  "rewound p = p\<lparr>rest := items p\<rparr>"

definition producer_BeforeFirst :: "'a producer \<Rightarrow> 'a producer option" where
  "producer_BeforeFirst p = (if has_reset p then Some (rewound p) else None)"

lemma rewound_simps [simp]:
  "items (rewound p) = items p" "rest (rewound p) = items p" "fresh (rewound p) = fresh p"
  "has_reset (rewound p) = has_reset p"
  by (simp_all add: rewound_def)

lemma producer_BeforeFirst_simps [simp]:
  "has_reset p \<Longrightarrow> producer_BeforeFirst p = Some (rewound p)"
  "\<not> has_reset p \<Longrightarrow> producer_BeforeFirst p = None"
  by (simp_all add: producer_BeforeFirst_def)

definition new_producer :: "'a list \<Rightarrow> 'a producer" where
  "new_producer xs = \<lparr>items = xs, rest = xs, fresh = 0, has_reset = True\<rparr>"

definition producer_without_reset :: "'a list \<Rightarrow> 'a producer" where
  "producer_without_reset xs = \<lparr>items = xs, rest = xs, fresh = 0, has_reset = False\<rparr>"

section \<open>The single-producer pipe: \<open>ThreadedIter\<close>\<close>

text \<open>
  The fields of the class, in the order of the source, followed by what the
  object refers to outside itself: the producer that the closures of \<open>Init\<close>
  capture, the number of \<open>std::thread\<close> objects created so far (a thread handle
  is the number of its thread), and the log of \<open>delete\<close> expressions executed.
  The waiter counts are \<open>unsigned\<close>; every increment is paired with a decrement
  in the same call, and they are only compared with zero.
\<close>

record 'a titer =
  producer_owned :: "nat option"
  producer_sig :: Signal
  producer_sig_processed :: bool
  producer_thread :: "nat option"
  produce_end :: bool
  max_capacity :: nat
  nwait_consumer :: nat
  nwait_producer :: nat
  out_data :: "'a cell option"
  queue :: "'a cell list"
  free_cells :: "'a cell list"
  source :: "'a producer"
  spawned :: nat
  deleted :: "obj list"

text \<open>
  The constructor initialises six members. \<open>producer_sig_\<close>,
  \<open>producer_sig_processed_\<close> and \<open>produce_end_\<close> are left uninitialised, so
  their values are parameters here.
\<close>

definition ThreadedIter :: "nat \<Rightarrow> Signal \<Rightarrow> bool \<Rightarrow> bool \<Rightarrow> 'a titer" where
  "ThreadedIter cap junk_sig junk_processed junk_end =
     \<lparr>producer_owned = None, producer_sig = junk_sig,
      producer_sig_processed = junk_processed, producer_thread = None,
      produce_end = junk_end, max_capacity = cap,
      nwait_consumer = 0, nwait_producer = 0, out_data = None,
      queue = [], free_cells = [], source = new_producer [],
      spawned = 0, deleted = []\<rparr>"

definition set_max_capacity :: "nat \<Rightarrow> 'a titer \<Rightarrow> 'a titer" where
  "set_max_capacity cap s = s\<lparr>max_capacity := cap\<rparr>"

subsection \<open>Init\<close>

text \<open>
  \<open>Init(next, beforefirst)\<close>: resets the three control members and starts a
  thread running \<open>producer_fun\<close>; the new thread begins at \<open>P_Start\<close> below.
  There is no check in this overload.
\<close>

definition Init_closures :: "'a producer \<Rightarrow> 'a titer \<Rightarrow> 'a titer" where
  "Init_closures p s =
     s\<lparr>producer_sig := kProduce, producer_sig_processed := False,
       produce_end := False, source := p,
       producer_thread := Some (spawned s), spawned := Suc (spawned s)\<rparr>"

text \<open>
  \<open>Init(Producer *producer, bool pass_ownership)\<close>: the \<open>CHECK\<close> on
  \<open>producer_owned_\<close>, the optional transfer of ownership, then the closure
  overload. \<open>addr\<close> is the address of the producer object.
\<close>

definition Init_producer ::
    "nat \<Rightarrow> bool \<Rightarrow> 'a producer \<Rightarrow> 'a titer \<Rightarrow> 'a titer outcome" where
  "Init_producer addr pass_ownership p s =
     (if producer_owned s \<noteq> None then Abort
      else Returns (Init_closures p
             (if pass_ownership then s\<lparr>producer_owned := Some addr\<rparr> else s)))"

subsection \<open>The producer thread\<close>

text \<open>
  Control points of \<open>producer_fun\<close>. One step is what the thread does without
  releasing the mutex, or one statement outside it:
  \<^item> \<open>P_Start\<close>: before \<open>beforefirst()\<close>, the first statement of the thread;
  \<^item> \<open>P_Loop\<close>: top of the \<open>while\<close>, about to take the lock;
  \<^item> \<open>P_Wait\<close>: asleep in \<open>producer_cond_.wait\<close>, counted in \<open>nwait_producer_\<close>;
  \<^item> \<open>P_Next c\<close>: lock released, about to run \<open>produce_end_ = !next(&cell)\<close>;
  \<^item> \<open>P_Push c\<close>: about to take the lock and push;
  \<^item> \<open>P_Exit\<close>: returned; \<open>P_Abort\<close>: a \<open>CHECK\<close> failed or the reset closure
    was \<open>NotImplemented\<close>.
  A sleeping thread may re-evaluate its predicate whenever it is scheduled
  (the condition variable allows spurious wake-ups), so the notifications
  themselves are not part of the state.
\<close>

datatype 'a ppc =
  P_Start | P_Loop | P_Wait | P_Next "'a cell option" | P_Push "'a cell option"
  | P_Exit | P_Abort

definition producer_wait_pred :: "'a titer \<Rightarrow> bool" where
  "producer_wait_pred s =
     (if producer_sig s = kProduce
      then \<not> produce_end s \<and> (length (queue s) < max_capacity s \<or> free_cells s \<noteq> [])
      else True)"

text \<open>The rest of the lock scope once the wait has returned.\<close>

definition producer_locked :: "'a titer \<Rightarrow> 'a ppc \<times> 'a titer" where
  "producer_locked s0 =
     (let s = s0\<lparr>nwait_producer := nwait_producer s0 - 1\<rparr> in
      case producer_sig s of
        kProduce \<Rightarrow>
          (case free_cells s of
             [] \<Rightarrow> (P_Next None, s)
           | c # fs \<Rightarrow> (P_Next (Some c), s\<lparr>free_cells := fs\<rparr>))
      | kBeforeFirst \<Rightarrow>
          (case producer_BeforeFirst (source s) of
             None \<Rightarrow> (P_Abort, s)
           | Some p \<Rightarrow>
               (P_Loop, s\<lparr>source := p,
                          free_cells := free_cells s @ queue s, queue := [],
                          produce_end := False, producer_sig_processed := True,
                          producer_sig := kProduce\<rparr>))
      | kDestroy \<Rightarrow>
          (P_Exit, s\<lparr>producer_sig_processed := True, produce_end := True\<rparr>))"

fun pstep :: "'a ppc \<Rightarrow> 'a titer \<Rightarrow> ('a ppc \<times> 'a titer) option" where
  "pstep P_Start s =
     (case producer_BeforeFirst (source s) of
        None \<Rightarrow> Some (P_Abort, s)
      | Some p \<Rightarrow> Some (P_Loop, s\<lparr>source := p\<rparr>))"
| "pstep P_Loop s =
     (let s1 = s\<lparr>nwait_producer := nwait_producer s + 1\<rparr> in
      if producer_wait_pred s1 then Some (producer_locked s1) else Some (P_Wait, s1))"
| "pstep P_Wait s =
     (if producer_wait_pred s then Some (producer_locked s) else None)"
| "pstep (P_Next c) s =
     (case producer_Next (source s) c of
        (got, c', p') \<Rightarrow>
          (let s1 = s\<lparr>source := p', produce_end := \<not> got\<rparr> in
           if c' \<noteq> None \<or> produce_end s1 then Some (P_Push c', s1)
           else Some (P_Abort, s1)))"
| "pstep (P_Push c) s =
     (if \<not> produce_end s
      then (case c of
              Some x \<Rightarrow> Some (P_Loop, s\<lparr>queue := queue s @ [x]\<rparr>)
            | None \<Rightarrow> Some (P_Abort, s))
      else (case c of
              Some x \<Rightarrow> Some (P_Loop, s\<lparr>free_cells := free_cells s @ [x]\<rparr>)
            | None \<Rightarrow> Some (P_Loop, s)))"
| "pstep P_Exit s = None"
| "pstep P_Abort s = None"

subsection \<open>The consumer's member functions\<close>

text \<open>
  \<open>Next(DType **out_dptr)\<close>. \<open>Next_enter\<close> runs up to the first evaluation of
  the wait predicate, \<open>Next_wait\<close> from a wake-up on. The result \<open>Some c\<close> is
  \<open>true\<close> with \<open>*out_dptr = c\<close>; \<open>None\<close> is \<open>false\<close>, \<open>*out_dptr\<close> untouched.
\<close>

definition Next_wait :: "'a titer \<Rightarrow> 'a titer \<times> 'a cell option outcome" where
  "Next_wait s =
     (if queue s \<noteq> [] \<or> produce_end s
      then (let s1 = s\<lparr>nwait_consumer := nwait_consumer s - 1\<rparr> in
            case queue s1 of
              c # q \<Rightarrow> (s1\<lparr>queue := q\<rparr>, Returns (Some c))
            | [] \<Rightarrow> (s1, if produce_end s1 then Returns None else Abort))
      else (s, Blocks))"

definition Next_enter :: "'a titer \<Rightarrow> 'a titer \<times> 'a cell option outcome" where
  "Next_enter s =
     (if producer_sig s = kDestroy then (s, Returns None)
      else if producer_sig s \<noteq> kProduce then (s, Abort)
      else Next_wait (s\<lparr>nwait_consumer := nwait_consumer s + 1\<rparr>))"

text \<open>\<open>Recycle(DType **inout_dptr)\<close> with \<open>*inout_dptr = c\<close>; the caller's pointer is nulled.\<close>

definition Recycle :: "'a cell \<Rightarrow> 'a titer \<Rightarrow> 'a titer" where
  "Recycle c s = s\<lparr>free_cells := free_cells s @ [c]\<rparr>"

text \<open>
  The adapter's \<open>Next(void)\<close> is \<open>Recycle(&out_data_)\<close> when a cell is held,
  followed by \<open>Next(&out_data_)\<close>; the two take the lock separately.
\<close>

definition Next_void_recycle :: "'a titer \<Rightarrow> 'a titer" where
  "Next_void_recycle s =
     (case out_data s of
        Some c \<Rightarrow> (Recycle c s)\<lparr>out_data := None\<rparr>
      | None \<Rightarrow> s)"

definition Next_void_store :: "'a titer \<times> 'a cell option outcome \<Rightarrow> 'a titer \<times> bool outcome" where
  "Next_void_store r =
     (case r of
        (s, Returns (Some c)) \<Rightarrow> (s\<lparr>out_data := Some c\<rparr>, Returns True)
      | (s, Returns None) \<Rightarrow> (s, Returns False)
      | (s, Blocks) \<Rightarrow> (s, Blocks)
      | (s, Abort) \<Rightarrow> (s, Abort)
      | (s, Crash) \<Rightarrow> (s, Crash))"

definition Value :: "'a titer \<Rightarrow> 'a outcome" where
  "Value s = (case out_data s of None \<Rightarrow> Abort | Some c \<Rightarrow> Returns (snd c))"

text \<open>\<open>BeforeFirst\<close>, split at its \<open>consumer_cond_.wait\<close> in the same way.\<close>

definition BeforeFirst_wait :: "'a titer \<Rightarrow> 'a titer \<times> unit outcome" where
  "BeforeFirst_wait s =
     (if producer_sig_processed s
      then (s\<lparr>producer_sig_processed := False\<rparr>, Returns ())
      else (s, Blocks))"

definition BeforeFirst_enter :: "'a titer \<Rightarrow> 'a titer \<times> unit outcome" where
  "BeforeFirst_enter s =
     (let s1 = (case out_data s of
                  Some c \<Rightarrow> s\<lparr>free_cells := free_cells s @ [c], out_data := None\<rparr>
                | None \<Rightarrow> s) in
      if producer_sig s1 = kDestroy then (s1, Returns ())
      else (let s2 = s1\<lparr>producer_sig := kBeforeFirst\<rparr> in
            if producer_sig_processed s2 then (s2, Abort)
            else BeforeFirst_wait s2))"

subsection \<open>Destroy\<close>

text \<open>
  The part of \<open>Destroy\<close> after the join: the two loops that delete and pop the
  front of \<open>free_cells_\<close> and of \<open>queue_\<close>, then the owned producer, then the
  adapter's cell. Only \<open>out_data_\<close> is set to null afterwards.
\<close>

definition Destroy_cleanup :: "'a titer \<Rightarrow> 'a titer" where
  "Destroy_cleanup s =
     s\<lparr>deleted := deleted s @ map (CellObj \<circ> fst) (free_cells s)
                   @ map (CellObj \<circ> fst) (queue s)
                   @ (case producer_owned s of Some a \<Rightarrow> [ProducerObj a] | None \<Rightarrow> [])
                   @ (case out_data s of Some c \<Rightarrow> [CellObj (fst c)] | None \<Rightarrow> []),
       free_cells := [], queue := [], out_data := None\<rparr>"

text \<open>
  \<open>producer_thread_->join()\<close> returns when the thread has returned. Here the
  producer thread is run on its own until then. While the signal is
  \<open>kDestroy\<close> every step of the thread brings it closer to its \<open>return\<close>; under
  another signal the thread never returns by itself, and join does not either.
\<close>

fun exit_distance :: "'a ppc \<Rightarrow> nat" where
  "exit_distance P_Start = 2"
| "exit_distance P_Loop = 1"
| "exit_distance P_Wait = 1"
| "exit_distance (P_Next c) = 3"
| "exit_distance (P_Push c) = 2"
| "exit_distance P_Exit = 0"
| "exit_distance P_Abort = 0"

lemma producer_locked_kDestroy:
  "producer_sig s = kDestroy \<Longrightarrow>
   producer_locked s = (P_Exit, s\<lparr>nwait_producer := nwait_producer s - 1,
                                   producer_sig_processed := True, produce_end := True\<rparr>)"
  by (simp add: producer_locked_def)

lemma pstep_kDestroy:
  assumes "producer_sig s = kDestroy" and "pstep pc s = Some (pc', s')"
  shows "producer_sig s' = kDestroy \<and> exit_distance pc' < exit_distance pc"
proof (cases pc)
  case P_Loop
  with assms show ?thesis
    by (auto simp: Let_def producer_wait_pred_def producer_locked_kDestroy)
next
  case P_Wait
  with assms show ?thesis
    by (auto simp: producer_wait_pred_def producer_locked_kDestroy)
next
  case (P_Next c)
  with assms show ?thesis
    by (auto simp: Let_def split: prod.splits if_splits)
next
  case (P_Push c)
  with assms show ?thesis
    by (auto split: option.splits if_splits)
qed (use assms in \<open>auto split: option.splits\<close>)

function join_producer :: "'a ppc \<Rightarrow> 'a titer \<Rightarrow> ('a ppc \<times> 'a titer) option" where
  "join_producer pc s =
     (if pc = P_Exit then Some (pc, s)
      else if producer_sig s \<noteq> kDestroy then None
      else (case pstep pc s of
              None \<Rightarrow> None
            | Some (pc', s') \<Rightarrow> join_producer pc' s'))"
  by pat_completeness auto
termination
proof (relation "measure (\<lambda>(pc, s). exit_distance pc)")
  show "wf (measure (\<lambda>(pc, s :: 'a titer). exit_distance (pc :: 'a ppc)))"
    by simp
next
  fix pc :: "'a ppc" and s :: "'a titer" and x2 pc' s'
  assume "\<not> producer_sig s \<noteq> kDestroy" and "pstep pc s = Some x2" and "(pc', s') = x2"
  then have "exit_distance pc' < exit_distance pc"
    using pstep_kDestroy [of s pc pc' s'] by simp
  then show "((pc', s'), (pc, s)) \<in> measure (\<lambda>(pc, s). exit_distance pc)"
    by simp
qed

declare join_producer.simps [simp del]

text \<open>
  \<open>Destroy\<close>, run by the consumer with the producer thread at control point
  \<open>pc\<close>. \<open>None\<close> means that the call does not return.
\<close>

definition Destroy :: "'a ppc \<Rightarrow> 'a titer \<Rightarrow> ('a ppc \<times> 'a titer) option" where
  "Destroy pc s =
     (case producer_thread s of
        Some h \<Rightarrow>
          (case join_producer pc (s\<lparr>producer_sig := kDestroy\<rparr>) of
             None \<Rightarrow> None
           | Some (pc', s1) \<Rightarrow>
               Some (pc', Destroy_cleanup
                            (s1\<lparr>deleted := deleted s1 @ [ThreadObj h],
                                producer_thread := None\<rparr>)))
      | None \<Rightarrow> Some (pc, Destroy_cleanup s))"

section \<open>The pipe with its two threads\<close>

text \<open>
  The pipe in use: the object, the producer thread, and one consumer thread
  that calls the member functions one after the other. Control points of the
  consumer:
  \<^item> \<open>C_Idle\<close>: between two calls;
  \<^item> \<open>C_Next\<close>: asleep in \<open>Next(&p)\<close>, called with a pointer of its own;
  \<^item> \<open>C_Adv\<close>: in the adapter's \<open>Next()\<close>, after the \<open>Recycle\<close>, before
    \<open>Next(&out_data_)\<close>;
  \<^item> \<open>C_AdvNext\<close>: asleep in that \<open>Next(&out_data_)\<close>;
  \<^item> \<open>C_BF\<close>: asleep in \<open>BeforeFirst\<close>;
  \<^item> \<open>C_Abort\<close>: the process was aborted.
  Besides the threads the state records what the consumer holds and has seen:
  \<open>held\<close> are the cells obtained through \<open>Next(&p)\<close> and not yet recycled,
  \<open>outs\<close> the results of the pulls since \<open>Init\<close> or since the last call of
  \<open>BeforeFirst\<close> (\<open>Some v\<close>: true, with content \<open>v\<close>; \<open>None\<close>: false),
  \<open>passes\<close> the \<open>outs\<close> of the passes ended by a \<open>BeforeFirst\<close>, and \<open>peak\<close> the
  largest number of cells that were on loan to the consumer at one time.
\<close>

datatype cpc = C_Idle | C_Next | C_Adv | C_AdvNext | C_BF | C_Abort

record 'a sys =
  pipe :: "'a titer"
  pthr :: "'a ppc"
  cthr :: cpc
  held :: "'a cell list"
  outs :: "'a option list"
  passes :: "'a option list list"
  peak :: nat

text \<open>
  The steps a scheduler can choose from: one step of the producer thread, a
  call of the consumer (\<open>Next(&p)\<close>, \<open>Recycle\<close> of the i-th held cell, the
  adapter's \<open>Next()\<close>, \<open>BeforeFirst\<close>), or the consumer going on inside its
  current call. A step that is not possible in a state (the thread sleeps and
  its predicate is false, or the consumer is inside another call) is \<open>None\<close>.
\<close>

datatype act = Produce | CallNext | CallRecycle nat | CallAdvance | CallBeforeFirst | Resume

definition direct_Next :: "'a sys \<Rightarrow> 'a titer \<times> 'a cell option outcome \<Rightarrow> 'a sys" where
  "direct_Next s r =
     (case r of
        (p, Returns (Some c)) \<Rightarrow>
          s\<lparr>pipe := p, cthr := C_Idle, held := held s @ [c], outs := outs s @ [Some (snd c)]\<rparr>
      | (p, Returns None) \<Rightarrow> s\<lparr>pipe := p, cthr := C_Idle, outs := outs s @ [None]\<rparr>
      | (p, Blocks) \<Rightarrow> s\<lparr>pipe := p, cthr := C_Next\<rparr>
      | (p, Abort) \<Rightarrow> s\<lparr>pipe := p, cthr := C_Abort\<rparr>
      | (p, Crash) \<Rightarrow> s\<lparr>pipe := p, cthr := C_Abort\<rparr>)"

text \<open>After a true result the consumer of the adapter reads \<open>Value()\<close>.\<close>

definition adapter_Next :: "'a sys \<Rightarrow> 'a titer \<times> 'a cell option outcome \<Rightarrow> 'a sys" where
  "adapter_Next s r =
     (case Next_void_store r of
        (p, Returns True) \<Rightarrow>
          (case Value p of
             Returns v \<Rightarrow> s\<lparr>pipe := p, cthr := C_Idle, outs := outs s @ [Some v]\<rparr>
           | _ \<Rightarrow> s\<lparr>pipe := p, cthr := C_Abort\<rparr>)
      | (p, Returns False) \<Rightarrow> s\<lparr>pipe := p, cthr := C_Idle, outs := outs s @ [None]\<rparr>
      | (p, Blocks) \<Rightarrow> s\<lparr>pipe := p, cthr := C_AdvNext\<rparr>
      | (p, Abort) \<Rightarrow> s\<lparr>pipe := p, cthr := C_Abort\<rparr>
      | (p, Crash) \<Rightarrow> s\<lparr>pipe := p, cthr := C_Abort\<rparr>)"

definition rewind_call :: "'a sys \<Rightarrow> 'a titer \<times> unit outcome \<Rightarrow> 'a sys" where
  "rewind_call s r =
     (case r of
        (p, Returns u) \<Rightarrow> s\<lparr>pipe := p, cthr := C_Idle\<rparr>
      | (p, Blocks) \<Rightarrow> s\<lparr>pipe := p, cthr := C_BF\<rparr>
      | (p, Abort) \<Rightarrow> s\<lparr>pipe := p, cthr := C_Abort\<rparr>
      | (p, Crash) \<Rightarrow> s\<lparr>pipe := p, cthr := C_Abort\<rparr>)"

definition is_Blocks :: "'s \<times> 'r outcome \<Rightarrow> bool" where
  "is_Blocks r = (case snd r of Blocks \<Rightarrow> True | _ \<Rightarrow> False)"

fun resume :: "'a sys \<Rightarrow> 'a sys option" where
  "resume s =
     (case cthr s of
        C_Next \<Rightarrow>
          (if is_Blocks (Next_wait (pipe s)) then None
           else Some (direct_Next s (Next_wait (pipe s))))
      | C_Adv \<Rightarrow> Some (adapter_Next s (Next_enter (pipe s)))
      | C_AdvNext \<Rightarrow>
          (if is_Blocks (Next_wait (pipe s)) then None
           else Some (adapter_Next s (Next_wait (pipe s))))
      | C_BF \<Rightarrow>
          (if is_Blocks (BeforeFirst_wait (pipe s)) then None
           else Some (rewind_call s (BeforeFirst_wait (pipe s))))
      | C_Idle \<Rightarrow> None
      | C_Abort \<Rightarrow> None)"

fun step0 :: "act \<Rightarrow> 'a sys \<Rightarrow> 'a sys option" where
  "step0 Produce s =
     (case pstep (pthr s) (pipe s) of
        None \<Rightarrow> None
      | Some (pc, p) \<Rightarrow> Some (s\<lparr>pipe := p, pthr := pc\<rparr>))"
| "step0 CallNext s =
     (if cthr s = C_Idle then Some (direct_Next s (Next_enter (pipe s))) else None)"
| "step0 (CallRecycle i) s =
     (if cthr s = C_Idle \<and> i < length (held s)
      then Some (s\<lparr>pipe := Recycle (held s ! i) (pipe s),
                   held := take i (held s) @ drop (Suc i) (held s)\<rparr>)
      else None)"
| "step0 CallAdvance s =
     (if cthr s = C_Idle
      then Some (s\<lparr>pipe := Next_void_recycle (pipe s), cthr := C_Adv\<rparr>)
      else None)"
| "step0 CallBeforeFirst s =
     (if cthr s = C_Idle
      then Some (rewind_call (s\<lparr>passes := passes s @ [outs s], outs := []\<rparr>)
                   (BeforeFirst_enter (pipe s)))
      else None)"
| "step0 Resume s = resume s"

text \<open>Cells on loan to the consumer, and the step that keeps their peak.\<close>

definition cells_of :: "'a cell option \<Rightarrow> 'a cell list" where
  "cells_of c = (case c of Some x \<Rightarrow> [x] | None \<Rightarrow> [])"

definition loans :: "'a sys \<Rightarrow> nat" where
  "loans s = length (held s) + length (cells_of (out_data (pipe s)))"

definition step :: "act \<Rightarrow> 'a sys \<Rightarrow> 'a sys option" where
  "step a s =
     (case step0 a s of
        None \<Rightarrow> None
      | Some s' \<Rightarrow> Some (s'\<lparr>peak := max (peak s') (loans s')\<rparr>))"

fun run :: "act list \<Rightarrow> 'a sys \<Rightarrow> 'a sys option" where
  "run [] s = Some s"
| "run (a # sch) s = (case step a s of None \<Rightarrow> None | Some s' \<Rightarrow> run sch s')"

text \<open>
  A pipe of capacity \<open>cap\<close>, constructed and initialised once with the
  closures of the producer \<open>p\<close>; \<open>j1\<close>, \<open>j2\<close>, \<open>j3\<close> are whatever the three
  uninitialised members held.
\<close>

definition start :: "nat \<Rightarrow> Signal \<Rightarrow> bool \<Rightarrow> bool \<Rightarrow> 'a producer \<Rightarrow> 'a sys" where
  "start cap j1 j2 j3 p =
     \<lparr>pipe = Init_closures p (ThreadedIter cap j1 j2 j3), pthr = P_Start, cthr = C_Idle,
      held = [], outs = [], passes = [], peak = 0\<rparr>"

text \<open>
  The cells alive: those in the ready queue, in the free pool, on loan to the
  consumer, and the one the producer thread works on.
\<close>

fun in_flight :: "'a ppc \<Rightarrow> 'a cell list" where
  "in_flight (P_Next c) = cells_of c"
| "in_flight (P_Push c) = cells_of c"
| "in_flight pc = []"

definition alive :: "'a sys \<Rightarrow> nat" where
  "alive s = length (queue (pipe s)) + length (free_cells (pipe s)) + loans s
             + length (in_flight (pthr s))"

text \<open>
  The items still to come, in order: the ready queue, the item the producer
  thread has obtained and not yet pushed, and what the producer has left.
\<close>

fun flight :: "'a ppc \<Rightarrow> bool \<Rightarrow> 'a list" where
  "flight (P_Push (Some c)) ended = (if ended then [] else [snd c])"
| "flight pc ended = []"

definition pending :: "'a sys \<Rightarrow> 'a list" where
  "pending s =
     map snd (queue (pipe s))
     @ flight (pthr s) (produce_end (pipe s))
     @ (if pthr s = P_Start then items (source (pipe s)) else rest (source (pipe s)))"

text \<open>The first \<open>k\<close> results of pulling from a producer of \<open>xs\<close>.\<close>

definition expected :: "'a list \<Rightarrow> nat \<Rightarrow> 'a option list" where
  "expected xs k = map Some (take k xs) @ replicate (k - length xs) None"

section \<open>The multi-producer pipe: \<open>MultiThreadedIter\<close>\<close>

subsection \<open>The shared queue\<close>

text \<open>
  Modelled from the spec: the Bounded Concurrent Queue capability
  (\<open>ConcurrentBlockingQueue\<close> of \<open>concurrency.h\<close>, which is not among the
  sources). A queue in arrival order with a fixed capacity: push sleeps while
  the queue is full, pop while it is empty; after the kill signal, sleeping
  and later calls fail at once instead of blocking.
\<close>

record 'e cbq =
  cbq_items :: "'e list"
  cbq_capacity :: nat
  cbq_killed :: bool

definition new_cbq :: "nat \<Rightarrow> 'e cbq" where
  "new_cbq cap = \<lparr>cbq_items = [], cbq_capacity = cap, cbq_killed = False\<rparr>"

definition cbq_Push :: "'e \<Rightarrow> 'e cbq \<Rightarrow> 'e cbq outcome" where
  "cbq_Push e q =
     (if cbq_killed q then Returns q
      else if length (cbq_items q) < cbq_capacity q
      then Returns (q\<lparr>cbq_items := cbq_items q @ [e]\<rparr>)
      else Blocks)"

definition cbq_Pop :: "'e cbq \<Rightarrow> ('e option \<times> 'e cbq) outcome" where
  "cbq_Pop q =
     (if cbq_killed q then Returns (None, q)
      else (case cbq_items q of
              [] \<Rightarrow> Blocks
            | e # es \<Rightarrow> Returns (Some e, q\<lparr>cbq_items := es\<rparr>)))"

definition cbq_Size :: "'e cbq \<Rightarrow> nat" where
  "cbq_Size q = length (cbq_items q)"

definition cbq_SignalForKill :: "'e cbq \<Rightarrow> 'e cbq" where
  "cbq_SignalForKill q = q\<lparr>cbq_killed := True\<rparr>"

subsection \<open>The object and its worker threads\<close>

text \<open>
  Control points of \<open>producer_thread_body_\<close>:
  \<^item> \<open>W_Loop\<close>: top of the \<open>while\<close>, about to call \<open>loader_->Next(&source_data)\<close>;
  \<^item> \<open>W_Pull\<close>: asleep in that call;
  \<^item> \<open>W_Got r\<close>: the call has returned \<open>r\<close>, \<open>force_stopped_\<close> is read next;
  \<^item> \<open>W_Work src\<close>: about to take a free cell under the mutex and to run \<open>next\<close>;
  \<^item> \<open>W_Push c src\<close>: about to push the pair; \<open>W_Sentinel\<close>: about to push the
    pair of nulls;
  \<^item> \<open>W_Exit\<close>: returned; \<open>W_Abort\<close>: aborted or crashed.
\<close>

datatype ('d, 's) wpc =
  W_Loop | W_Pull | W_Got "'s cell option" | W_Work "'s cell" | W_Push "'d cell" "'s cell"
  | W_Sentinel | W_Exit | W_Abort

text \<open>
  The fields of the class. A slot of \<open>producer_threads_\<close> is null or owns a
  thread, which is shown at its control point. \<open>queue_\<close> is a \<open>unique_ptr\<close>, null
  until \<open>Init\<close>. The last three fields lie outside the object: the next address
  that \<open>new DType\<close> returns to the transform closure, the number of calls of
  the reset closure \<open>before_first_\<close>, and the log of \<open>delete\<close> expressions.
\<close>

record ('d, 's) miter =
  m_out_data :: "'d cell option"
  loader :: "'s titer"
  thread_num :: nat
  force_stopped :: bool
  null_cell_num :: nat
  producer_threads :: "('d, 's) wpc option list"
  mqueue :: "('d cell option \<times> 's cell option) cbq option"
  queue_capacity :: nat
  m_free_cells :: "'d cell list"
  m_fresh :: nat
  resets :: nat
  m_deleted :: "obj list"

text \<open>The constructor, with its \<open>CHECK\<close> that the base pipe is not null.\<close>

definition fresh_miter :: "'s titer \<Rightarrow> nat \<Rightarrow> nat \<Rightarrow> ('d, 's) miter" where
  "fresh_miter l n cap =
     \<lparr>m_out_data = None, loader = l, thread_num = n, force_stopped = False,
      null_cell_num = 0, producer_threads = [], mqueue = None,
      queue_capacity = cap, m_free_cells = [], m_fresh = 0, resets = 0,
      m_deleted = []\<rparr>"

definition MultiThreadedIter ::
    "'s titer option \<Rightarrow> nat \<Rightarrow> nat \<Rightarrow> ('d, 's) miter outcome" where
  "MultiThreadedIter base n cap =
     (case base of
        None \<Rightarrow> Abort
      | Some l \<Rightarrow> Returns (fresh_miter l n cap))"

text \<open>
  \<open>Init\<close>: a new queue, the closures stored, the vector resized to
  \<open>thread_num_\<close> and every slot given a new thread.
\<close>

definition MInit :: "('d, 's) miter \<Rightarrow> ('d, 's) miter" where
  "MInit m =
     m\<lparr>mqueue := Some (new_cbq (queue_capacity m)),
       producer_threads := replicate (thread_num m) (Some W_Loop)\<rparr>"

text \<open>
  One step of a worker. Modelled from the spec: the transform closure \<open>next\<close>
  populates the cell it is given, or a new one when the handle is empty, from
  the source item and the worker's number; \<open>f\<close> is the content it computes.
  Its call touches only what the worker holds, so it is one step with the
  locked scope before it. The result of \<open>next\<close> is not looked at.
\<close>

fun worker ::
    "('s \<Rightarrow> nat \<Rightarrow> 'd) \<Rightarrow> nat \<Rightarrow> ('d, 's) wpc \<Rightarrow> ('d, 's) miter
     \<Rightarrow> (('d, 's) wpc \<times> ('d, 's) miter) option" where
  "worker f tid W_Loop m =
     (case Next_enter (loader m) of
        (l, Returns r) \<Rightarrow> Some (W_Got r, m\<lparr>loader := l\<rparr>)
      | (l, Blocks) \<Rightarrow> Some (W_Pull, m\<lparr>loader := l\<rparr>)
      | (l, Abort) \<Rightarrow> Some (W_Abort, m\<lparr>loader := l\<rparr>)
      | (l, Crash) \<Rightarrow> Some (W_Abort, m\<lparr>loader := l\<rparr>))"
| "worker f tid W_Pull m =
     (case Next_wait (loader m) of
        (l, Returns r) \<Rightarrow> Some (W_Got r, m\<lparr>loader := l\<rparr>)
      | (l, Blocks) \<Rightarrow> None
      | (l, Abort) \<Rightarrow> Some (W_Abort, m\<lparr>loader := l\<rparr>)
      | (l, Crash) \<Rightarrow> Some (W_Abort, m\<lparr>loader := l\<rparr>))"
| "worker f tid (W_Got r) m =
     (case r of
        None \<Rightarrow> Some (W_Sentinel, m)
      | Some src \<Rightarrow> if force_stopped m then Some (W_Sentinel, m) else Some (W_Work src, m))"
| "worker f tid (W_Work src) m =
     (case m_free_cells m of
        [] \<Rightarrow> Some (W_Push (m_fresh m, f (snd src) tid) src, m\<lparr>m_fresh := Suc (m_fresh m)\<rparr>)
      | c # fs \<Rightarrow> Some (W_Push (fst c, f (snd src) tid) src, m\<lparr>m_free_cells := fs\<rparr>))"
| "worker f tid (W_Push c src) m =
     (case mqueue m of
        None \<Rightarrow> Some (W_Abort, m)
      | Some q \<Rightarrow>
          (case cbq_Push (Some c, Some src) q of
             Returns q' \<Rightarrow> Some (W_Loop, m\<lparr>mqueue := Some q'\<rparr>)
           | Blocks \<Rightarrow> None
           | _ \<Rightarrow> Some (W_Abort, m)))"
| "worker f tid W_Sentinel m =
     (case mqueue m of
        None \<Rightarrow> Some (W_Abort, m)
      | Some q \<Rightarrow>
          (case cbq_Push (None, None) q of
             Returns q' \<Rightarrow> Some (W_Exit, m\<lparr>mqueue := Some q'\<rparr>)
           | Blocks \<Rightarrow> None
           | _ \<Rightarrow> Some (W_Abort, m)))"
| "worker f tid W_Exit m = None"
| "worker f tid W_Abort m = None"

definition wstep ::
    "('s \<Rightarrow> nat \<Rightarrow> 'd) \<Rightarrow> nat \<Rightarrow> ('d, 's) miter \<Rightarrow> ('d, 's) miter option" where
  "wstep f tid m =
     (if tid < length (producer_threads m)
      then (case producer_threads m ! tid of
              None \<Rightarrow> None
            | Some pc \<Rightarrow>
                (case worker f tid pc m of
                   None \<Rightarrow> None
                 | Some (pc', m') \<Rightarrow>
                     Some (m'\<lparr>producer_threads := (producer_threads m')[tid := Some pc']\<rparr>)))
      else None)"

subsection \<open>The consumer's member functions\<close>

text \<open>
  \<open>Next(DType **out_dptr)\<close> is the test of \<open>null_cell_num_\<close> followed by the
  loop around \<open>queue_->Pop\<close>. One turn of the loop either crashes (the queue
  pointer is null), sleeps in \<open>Pop\<close>, goes round again (a sentinel that is not
  the last one), or ends the call with its result. A pair with an output
  cell always carries its source cell, which is recycled to the loader.
\<close>

datatype 'd pop_step = PopCrash | PopSleeps | PopAgain | PopReturns "'d cell option"

definition MNext_finished :: "('d, 's) miter \<Rightarrow> bool" where
  "MNext_finished m \<longleftrightarrow> thread_num m \<le> null_cell_num m"

definition MNext_pop :: "('d, 's) miter \<Rightarrow> ('d, 's) miter \<times> 'd pop_step" where
  "MNext_pop m =
     (case mqueue m of
        None \<Rightarrow> (m, PopCrash)
      | Some q \<Rightarrow>
          (case cbq_Pop q of
             Returns (None, q') \<Rightarrow> (m\<lparr>mqueue := Some q'\<rparr>, PopReturns None)
           | Returns (Some (Some c, src), q') \<Rightarrow>
               (m\<lparr>mqueue := Some q',
                  loader := (case src of Some sc \<Rightarrow> Recycle sc (loader m) | None \<Rightarrow> loader m)\<rparr>,
                PopReturns (Some c))
           | Returns (Some (None, src), q') \<Rightarrow>
               (let m1 = m\<lparr>mqueue := Some q', null_cell_num := null_cell_num m + 1\<rparr> in
                if null_cell_num m1 = thread_num m1 then (m1, PopReturns None)
                else (m1, PopAgain))
           | Blocks \<Rightarrow> (m, PopSleeps)
           | _ \<Rightarrow> (m, PopCrash)))"

definition MRecycle :: "'d cell \<Rightarrow> ('d, 's) miter \<Rightarrow> ('d, 's) miter" where
  "MRecycle c m = m\<lparr>m_free_cells := m_free_cells m @ [c]\<rparr>"

text \<open>The first half of the adapter's \<open>Next()\<close>.\<close>

definition MNext_void_recycle :: "('d, 's) miter \<Rightarrow> ('d, 's) miter" where
  "MNext_void_recycle m =
     (case m_out_data m of
        Some c \<Rightarrow> (MRecycle c m)\<lparr>m_out_data := None\<rparr>
      | None \<Rightarrow> m)"

definition MValue :: "('d, 's) miter \<Rightarrow> 'd outcome" where
  "MValue m = (case m_out_data m of None \<Rightarrow> Abort | Some c \<Rightarrow> Returns (snd c))"

subsection \<open>The multi-producer pipe with its threads\<close>

text \<open>
  The object in use: the loader's producer thread, the worker threads in their
  slots, and one consumer thread. The consumer is between two calls
  (\<open>MC_Idle\<close>), about to call the adapter's \<open>Next()\<close> (\<open>MC_Call\<close>), between the
  \<open>Recycle\<close> and the \<open>Next(&out_data_)\<close> of that (\<open>MC_Adv\<close>), in the loop around
  \<open>Pop\<close> (\<open>MC_Pop\<close>), at index \<open>tid\<close> of the join loop of \<open>BeforeFirst\<close>
  (\<open>MC_Join\<close>), about to call the reset closure and the loader's \<open>BeforeFirst\<close>
  (\<open>MC_Reset\<close>), or asleep in the latter (\<open>MC_Rewind\<close>). The context says on
  whose behalf \<open>Next\<close> runs: a direct call \<open>Next(&p)\<close>, the adapter's \<open>Next()\<close>
  called by the user, or the first or the second \<open>while (Next()) {}\<close> of
  \<open>BeforeFirst\<close>.
\<close>

datatype ctx = Direct | Adapter | Drain1 | Drain2

datatype mcpc =
  MC_Idle | MC_Call ctx | MC_Adv ctx | MC_Pop ctx | MC_Join nat | MC_Reset | MC_Rewind
  | MC_Abort

text \<open>What \<open>BeforeFirst\<close> has done, in the order in which it did it.\<close>

datatype event =
  EvForceStop | EvDrained | EvJoined nat | EvReset | EvLoaderRewind | EvCleared
  | EvLaunched nat

text \<open>
  \<open>mheld\<close> are the cells the consumer obtained through \<open>Next(&p)\<close> and did not
  recycle, \<open>mouts\<close> the results of the user's pulls (those of the draining
  loops of \<open>BeforeFirst\<close> are thrown away by it), \<open>trace\<close> the events of the
  latest \<open>BeforeFirst\<close>, \<open>rewinds\<close> the number of calls of \<open>BeforeFirst\<close>
  made so far.
\<close>

record ('d, 's) msys =
  mpipe :: "('d, 's) miter"
  lthr :: "'s ppc"
  mcthr :: mcpc
  mheld :: "'d cell list"
  mouts :: "'d option list"
  trace :: "event list"
  rewinds :: nat

datatype mact =
  M_Loader | M_Worker nat | M_CallNext | M_CallRecycle nat | M_CallAdvance
  | M_CallBeforeFirst | M_Resume

text \<open>\<open>Next\<close> returns \<open>r\<close> to its caller.\<close>

fun next_returns :: "ctx \<Rightarrow> 'd cell option \<Rightarrow> ('d, 's) msys \<Rightarrow> ('d, 's) msys" where
  "next_returns Direct (Some c) s =
     s\<lparr>mcthr := MC_Idle, mheld := mheld s @ [c], mouts := mouts s @ [Some (snd c)]\<rparr>"
| "next_returns Direct None s = s\<lparr>mcthr := MC_Idle, mouts := mouts s @ [None]\<rparr>"
| "next_returns Adapter (Some c) s =
     s\<lparr>mpipe := (mpipe s)\<lparr>m_out_data := Some c\<rparr>, mcthr := MC_Idle,
       mouts := mouts s @ [Some (snd c)]\<rparr>"
| "next_returns Adapter None s = s\<lparr>mcthr := MC_Idle, mouts := mouts s @ [None]\<rparr>"
| "next_returns Drain1 (Some c) s =
     s\<lparr>mpipe := (mpipe s)\<lparr>m_out_data := Some c\<rparr>, mcthr := MC_Call Drain1\<rparr>"
| "next_returns Drain1 None s = s\<lparr>mcthr := MC_Join 0, trace := trace s @ [EvDrained]\<rparr>"
| "next_returns Drain2 (Some c) s =
     s\<lparr>mpipe := (mpipe s)\<lparr>m_out_data := Some c\<rparr>, mcthr := MC_Call Drain2\<rparr>"
| "next_returns Drain2 None s = s\<lparr>mcthr := MC_Reset\<rparr>"

text \<open>
  The end of \<open>BeforeFirst\<close>, after the loader's \<open>BeforeFirst\<close> has returned:
  the two assignments, the resize and the launch loop. They are one step: the
  assignments run while no worker exists, and the launch of a thread touches
  its own slot only, so it commutes with the steps of the workers launched
  before it.
\<close>

definition rewind_finish :: "'s titer \<Rightarrow> ('d, 's) msys \<Rightarrow> ('d, 's) msys" where
  "rewind_finish l s =
     s\<lparr>mpipe := (mpipe s)\<lparr>loader := l, force_stopped := False, null_cell_num := 0,
                           producer_threads := replicate (thread_num (mpipe s)) (Some W_Loop)\<rparr>,
       mcthr := MC_Idle,
       trace := trace s @ [EvLoaderRewind, EvCleared]
                @ map EvLaunched [0 ..< thread_num (mpipe s)]\<rparr>"

fun mresume :: "('d, 's) msys \<Rightarrow> ('d, 's) msys option" where
  "mresume s =
     (case mcthr s of
        MC_Idle \<Rightarrow> None
      | MC_Abort \<Rightarrow> None
      | MC_Call c \<Rightarrow> Some (s\<lparr>mpipe := MNext_void_recycle (mpipe s), mcthr := MC_Adv c\<rparr>)
      | MC_Adv c \<Rightarrow>
          (if MNext_finished (mpipe s) then Some (next_returns c None s)
           else Some (s\<lparr>mcthr := MC_Pop c\<rparr>))
      | MC_Pop c \<Rightarrow>
          (case MNext_pop (mpipe s) of
             (m, PopCrash) \<Rightarrow> Some (s\<lparr>mpipe := m, mcthr := MC_Abort\<rparr>)
           | (m, PopSleeps) \<Rightarrow> None
           | (m, PopAgain) \<Rightarrow> Some (s\<lparr>mpipe := m\<rparr>)
           | (m, PopReturns r) \<Rightarrow> Some (next_returns c r (s\<lparr>mpipe := m\<rparr>)))
      | MC_Join tid \<Rightarrow>
          (if thread_num (mpipe s) \<le> tid then Some (s\<lparr>mcthr := MC_Call Drain2\<rparr>)
           else if length (producer_threads (mpipe s)) \<le> tid then Some (s\<lparr>mcthr := MC_Abort\<rparr>)
           else (case producer_threads (mpipe s) ! tid of
                   None \<Rightarrow> Some (s\<lparr>mcthr := MC_Join (Suc tid)\<rparr>)
                 | Some pc \<Rightarrow>
                     if pc = W_Exit
                     then Some (s\<lparr>mpipe := (mpipe s)\<lparr>producer_threads :=
                                            (producer_threads (mpipe s))[tid := None]\<rparr>,
                                  mcthr := MC_Join (Suc tid),
                                  trace := trace s @ [EvJoined tid]\<rparr>)
                     else None))
      | MC_Reset \<Rightarrow>
          (let s1 = s\<lparr>mpipe := (mpipe s)\<lparr>resets := Suc (resets (mpipe s))\<rparr>,
                      trace := trace s @ [EvReset]\<rparr> in
           case BeforeFirst_enter (loader (mpipe s1)) of
             (l, Returns u) \<Rightarrow> Some (rewind_finish l s1)
           | (l, Blocks) \<Rightarrow> Some (s1\<lparr>mpipe := (mpipe s1)\<lparr>loader := l\<rparr>, mcthr := MC_Rewind\<rparr>)
           | (l, Abort) \<Rightarrow> Some (s1\<lparr>mpipe := (mpipe s1)\<lparr>loader := l\<rparr>, mcthr := MC_Abort\<rparr>)
           | (l, Crash) \<Rightarrow> Some (s1\<lparr>mpipe := (mpipe s1)\<lparr>loader := l\<rparr>, mcthr := MC_Abort\<rparr>))
      | MC_Rewind \<Rightarrow>
          (case BeforeFirst_wait (loader (mpipe s)) of
             (l, Returns u) \<Rightarrow> Some (rewind_finish l s)
           | (l, Blocks) \<Rightarrow> None
           | (l, Abort) \<Rightarrow> Some (s\<lparr>mpipe := (mpipe s)\<lparr>loader := l\<rparr>, mcthr := MC_Abort\<rparr>)
           | (l, Crash) \<Rightarrow> Some (s\<lparr>mpipe := (mpipe s)\<lparr>loader := l\<rparr>, mcthr := MC_Abort\<rparr>)))"

fun mstep :: "('s \<Rightarrow> nat \<Rightarrow> 'd) \<Rightarrow> mact \<Rightarrow> ('d, 's) msys \<Rightarrow> ('d, 's) msys option" where
  "mstep f M_Loader s =
     (case pstep (lthr s) (loader (mpipe s)) of
        None \<Rightarrow> None
      | Some (pc, l) \<Rightarrow> Some (s\<lparr>mpipe := (mpipe s)\<lparr>loader := l\<rparr>, lthr := pc\<rparr>))"
| "mstep f (M_Worker tid) s =
     (case wstep f tid (mpipe s) of
        None \<Rightarrow> None
      | Some m \<Rightarrow> Some (s\<lparr>mpipe := m\<rparr>))"
| "mstep f M_CallNext s =
     (if mcthr s = MC_Idle
      then (if MNext_finished (mpipe s) then Some (next_returns Direct None s)
            else Some (s\<lparr>mcthr := MC_Pop Direct\<rparr>))
      else None)"
| "mstep f (M_CallRecycle i) s =
     (if mcthr s = MC_Idle \<and> i < length (mheld s)
      then Some (s\<lparr>mpipe := MRecycle (mheld s ! i) (mpipe s),
                   mheld := take i (mheld s) @ drop (Suc i) (mheld s)\<rparr>)
      else None)"
| "mstep f M_CallAdvance s =
     (if mcthr s = MC_Idle
      then Some (s\<lparr>mpipe := MNext_void_recycle (mpipe s), mcthr := MC_Adv Adapter\<rparr>)
      else None)"
| "mstep f M_CallBeforeFirst s =
     (if mcthr s = MC_Idle
      then Some (s\<lparr>mpipe := (mpipe s)\<lparr>force_stopped := True\<rparr>, mcthr := MC_Call Drain1,
                   trace := [EvForceStop], rewinds := Suc (rewinds s)\<rparr>)
      else None)"
| "mstep f M_Resume s = mresume s"

fun mrun :: "('s \<Rightarrow> nat \<Rightarrow> 'd) \<Rightarrow> mact list \<Rightarrow> ('d, 's) msys \<Rightarrow> ('d, 's) msys option" where
  "mrun f [] s = Some s"
| "mrun f (a # sch) s = (case mstep f a s of None \<Rightarrow> None | Some s' \<Rightarrow> mrun f sch s')"

text \<open>
  A multi-producer pipe with \<open>n\<close> workers and queue capacity \<open>qcap\<close>, constructed
  over a loader of capacity \<open>lcap\<close> that was initialised with the producer
  \<open>p\<close>, and initialised itself.
\<close>

definition mstart ::
    "nat \<Rightarrow> Signal \<Rightarrow> bool \<Rightarrow> bool \<Rightarrow> 's producer \<Rightarrow> nat \<Rightarrow> nat \<Rightarrow> ('d, 's) msys" where
  "mstart lcap j1 j2 j3 p n qcap =
     \<lparr>mpipe = MInit (fresh_miter (Init_closures p (ThreadedIter lcap j1 j2 j3)) n qcap),
      lthr = P_Start, mcthr = MC_Idle, mheld = [], mouts = [], trace = [], rewinds = 0\<rparr>"

section \<open>Case analysis of the steps\<close>

lemma expected_0 [simp]: "expected xs 0 = []"
  by (simp add: expected_def)

lemma expected_length: "length (expected xs k) = k"
  by (simp add: expected_def)

lemma expected_Suc_Some:
  "n < length xs \<Longrightarrow> expected xs (Suc n) = expected xs n @ [Some (xs ! n)]"
  by (simp add: expected_def take_Suc_conv_app_nth)

lemma expected_Suc_None:
  "length xs \<le> n \<Longrightarrow> expected xs (Suc n) = expected xs n @ [None]"
  by (simp add: expected_def Suc_diff_le replicate_append_same)

lemma drop_eq_Cons:
  "drop n xs = y # ys \<Longrightarrow> n < length xs \<and> xs ! n = y \<and> drop (Suc n) xs = ys"
  by (metis Cons_nth_drop_Suc drop_eq_Nil list.discI list.inject not_le)

lemma flight_ended [simp]: "flight pc True = []"
  by (cases "(pc, True)" rule: flight.cases) simp_all

text \<open>
  The control invariant of a pipe that is initialised once and never destroyed:
  the producer has a reset;
  the signal is \<open>kProduce\<close> except while the consumer sleeps in \<open>BeforeFirst\<close>;
  the acknowledgement flag is set only between the producer's acknowledgement
  and the consumer's wake-up; the end-of-stream flag is set only when the
  producer is exhausted; no \<open>CHECK\<close> has failed.
\<close>

definition ctl_inv :: "'a sys \<Rightarrow> bool" where
  "ctl_inv s \<longleftrightarrow>
     has_reset (source (pipe s)) \<and>
     producer_sig (pipe s) \<noteq> kDestroy \<and>
     pthr s \<noteq> P_Exit \<and> pthr s \<noteq> P_Abort \<and> cthr s \<noteq> C_Abort \<and>
     (producer_sig (pipe s) = kBeforeFirst \<longrightarrow>
        cthr s = C_BF \<and> \<not> producer_sig_processed (pipe s)) \<and>
     (producer_sig_processed (pipe s) \<longrightarrow> cthr s = C_BF) \<and>
     (cthr s = C_BF \<and> producer_sig (pipe s) = kProduce \<longrightarrow> producer_sig_processed (pipe s)) \<and>
     (produce_end (pipe s) \<longrightarrow> rest (source (pipe s)) = [] \<and> pthr s \<noteq> P_Start) \<and>
     (pthr s = P_Push None \<longrightarrow> produce_end (pipe s))"

text \<open>
  The stream invariant: the results of the current pass are the first ones of
  the expected sequence, and what is still to come (ready queue, item in
  flight, rest of the producer) is exactly the remainder of \<open>xs\<close>. While a
  rewind is being processed nothing is required of the queue.
\<close>

definition stream_inv :: "'a list \<Rightarrow> 'a sys \<Rightarrow> bool" where
  "stream_inv xs s \<longleftrightarrow>
     items (source (pipe s)) = xs \<and>
     (cthr s = C_BF \<longrightarrow> outs s = []) \<and>
     (producer_sig (pipe s) = kProduce \<longrightarrow>
        outs s = expected xs (length (outs s)) \<and>
        pending s = drop (length (outs s)) xs \<and>
        (length xs < length (outs s) \<longrightarrow> produce_end (pipe s))) \<and>
     (\<forall>r \<in> set (passes s). r = expected xs (length r))"

lemma ctl_inv_start: "has_reset p \<Longrightarrow> ctl_inv (start cap j1 j2 j3 p)"
  by (simp add: ctl_inv_def start_def Init_closures_def ThreadedIter_def)

lemma stream_inv_start: "stream_inv (items p) (start cap j1 j2 j3 p)"
  by (simp add: stream_inv_def start_def Init_closures_def ThreadedIter_def pending_def expected_def)


lemma producer_locked_cases [case_names Take_None Take_Some Rewind Rewind_abort Exit]:
  obtains
    (Take_None) n where "producer_sig s = kProduce" "free_cells s = []"
      "producer_locked s = (P_Next None, s\<lparr>nwait_producer := n\<rparr>)"
  | (Take_Some) n c fs where "producer_sig s = kProduce" "free_cells s = c # fs"
      "producer_locked s = (P_Next (Some c), s\<lparr>nwait_producer := n, free_cells := fs\<rparr>)"
  | (Rewind) n where "producer_sig s = kBeforeFirst" "has_reset (source s)"
      "producer_locked s =
         (P_Loop, s\<lparr>nwait_producer := n, source := rewound (source s),
                    free_cells := free_cells s @ queue s, queue := [],
                    produce_end := False, producer_sig_processed := True,
                    producer_sig := kProduce\<rparr>)"
  | (Rewind_abort) n where "producer_sig s = kBeforeFirst" "\<not> has_reset (source s)"
      "producer_locked s = (P_Abort, s\<lparr>nwait_producer := n\<rparr>)"
  | (Exit) n where "producer_sig s = kDestroy"
      "producer_locked s =
         (P_Exit, s\<lparr>nwait_producer := n, producer_sig_processed := True, produce_end := True\<rparr>)"
proof (cases "producer_sig s")
  case kProduce
  show ?thesis
  proof (cases "free_cells s")
    case Nil
    with kProduce show ?thesis by (intro Take_None) (simp_all add: producer_locked_def)
  next
    case (Cons c fs)
    with kProduce show ?thesis by (intro Take_Some) (simp_all add: producer_locked_def)
  qed
next
  case kBeforeFirst
  then show ?thesis
    by (cases "has_reset (source s)")
       (auto intro: Rewind Rewind_abort simp: producer_locked_def producer_BeforeFirst_def)
next
  case kDestroy
  then show ?thesis by (intro Exit) (simp_all add: producer_locked_def)
qed


lemma producer_wait_pred_nwait [simp]:
  "producer_wait_pred (s\<lparr>nwait_producer := n\<rparr>) = producer_wait_pred s"
  by (simp add: producer_wait_pred_def)

lemma update_nwait_twice [simp]:
  "s\<lparr>nwait_producer := n, nwait_producer := m\<rparr> = s\<lparr>nwait_producer := m\<rparr>"
  by simp

lemma pstep_cases [consumes 1, case_names Start Sleep Take_None Take_Some Rewind Exit
    Next_end Next_item Push Push_null Give_back End_null Start_abort Rewind_abort]:
  assumes "pstep pc s = Some (pc', s')"
  obtains
    (Start) "pc = P_Start" "pc' = P_Loop" "has_reset (source s)"
      "s' = s\<lparr>source := rewound (source s)\<rparr>"
  | (Sleep) n where "pc = P_Loop" "pc' = P_Wait" "\<not> producer_wait_pred s"
      "s' = s\<lparr>nwait_producer := n\<rparr>"
  | (Take_None) n where "pc = P_Loop \<or> pc = P_Wait" "pc' = P_Next None"
      "producer_sig s = kProduce" "\<not> produce_end s" "free_cells s = []"
      "length (queue s) < max_capacity s" "s' = s\<lparr>nwait_producer := n\<rparr>"
  | (Take_Some) n c fs where "pc = P_Loop \<or> pc = P_Wait" "pc' = P_Next (Some c)"
      "producer_sig s = kProduce" "\<not> produce_end s" "free_cells s = c # fs"
      "s' = s\<lparr>nwait_producer := n, free_cells := fs\<rparr>"
  | (Rewind) n where "pc = P_Loop \<or> pc = P_Wait" "pc' = P_Loop"
      "producer_sig s = kBeforeFirst" "has_reset (source s)"
      "s' = s\<lparr>nwait_producer := n, source := rewound (source s),
                 free_cells := free_cells s @ queue s, queue := [],
                 produce_end := False, producer_sig_processed := True,
                 producer_sig := kProduce\<rparr>"
  | (Exit) n where "pc = P_Loop \<or> pc = P_Wait" "pc' = P_Exit" "producer_sig s = kDestroy"
      "s' = s\<lparr>nwait_producer := n, producer_sig_processed := True, produce_end := True\<rparr>"
  | (Next_end) c where "pc = P_Next c" "pc' = P_Push c" "rest (source s) = []"
      "s' = s\<lparr>produce_end := True\<rparr>"
  | (Next_item) c x xs a f where "pc = P_Next c" "pc' = P_Push (Some (a, x))"
      "rest (source s) = x # xs" "c = None \<or> (\<exists>v. c = Some (a, v))"
      "s' = s\<lparr>source := (source s)\<lparr>rest := xs, fresh := f\<rparr>, produce_end := False\<rparr>"
  | (Push) c where "pc = P_Push (Some c)" "pc' = P_Loop" "\<not> produce_end s"
      "s' = s\<lparr>queue := queue s @ [c]\<rparr>"
  | (Push_null) "pc = P_Push None" "pc' = P_Abort" "\<not> produce_end s" "s' = s"
  | (Give_back) c where "pc = P_Push (Some c)" "pc' = P_Loop" "produce_end s"
      "s' = s\<lparr>free_cells := free_cells s @ [c]\<rparr>"
  | (End_null) "pc = P_Push None" "pc' = P_Loop" "produce_end s" "s' = s"
  | (Start_abort) "pc = P_Start" "pc' = P_Abort" "\<not> has_reset (source s)" "s' = s"
  | (Rewind_abort) n where "pc = P_Loop \<or> pc = P_Wait" "pc' = P_Abort"
      "producer_sig s = kBeforeFirst" "\<not> has_reset (source s)"
      "s' = s\<lparr>nwait_producer := n\<rparr>"
proof (cases pc)
  case P_Start
  with assms show ?thesis
    by (cases "has_reset (source s)")
       (auto intro: Start Start_abort simp: producer_BeforeFirst_def)
next
  case P_Loop
  show ?thesis
  proof (cases "producer_wait_pred s")
    case False
    with assms P_Loop show ?thesis by (intro Sleep) (auto simp: Let_def)
  next
    case True
    with assms P_Loop have *: "producer_locked (s\<lparr>nwait_producer := nwait_producer s + 1\<rparr>) = (pc', s')"
      by (simp add: Let_def)
    show ?thesis
    proof (cases "s\<lparr>nwait_producer := nwait_producer s + 1\<rparr>" rule: producer_locked_cases)
      case (Take_None n)
      with * P_Loop True show ?thesis
        by (intro that(3)[of n]) (auto simp: producer_wait_pred_def)
    next
      case (Take_Some n c fs)
      with * P_Loop True show ?thesis
        by (intro that(4)[where n=n and c=c and fs=fs]) (auto simp: producer_wait_pred_def)
    next
      case (Rewind n)
      with * P_Loop show ?thesis
        by (intro that(5)[of n]) auto
    next
      case (Rewind_abort n)
      with * P_Loop show ?thesis
        by (intro that(14)[of n]) auto
    next
      case (Exit n)
      with * P_Loop show ?thesis
        by (intro that(6)[of n]) auto
    qed
  qed
next
  case P_Wait
  with assms have True: "producer_wait_pred s" and *: "producer_locked s = (pc', s')"
    by (auto split: if_splits)
  have upd: "\<And>n. s\<lparr>nwait_producer := n\<rparr> = s' \<Longrightarrow> s' = s\<lparr>nwait_producer := n\<rparr>"
    by simp
  show ?thesis
  proof (cases s rule: producer_locked_cases)
    case (Take_None n)
    with * P_Wait True show ?thesis
      by (intro that(3)[of n]) (auto simp: producer_wait_pred_def)
  next
    case (Take_Some n c fs)
    with * P_Wait True show ?thesis
      by (intro that(4)[where n=n and c=c and fs=fs]) (auto simp: producer_wait_pred_def)
  next
    case (Rewind n)
    with * P_Wait show ?thesis
      by (intro that(5)[of n]) auto
  next
    case (Rewind_abort n)
    with * P_Wait show ?thesis
      by (intro that(14)[of n]) auto
  next
    case (Exit n)
    with * P_Wait show ?thesis
      by (intro that(6)[of n]) auto
  qed
next
  case (P_Next c)
  show ?thesis
  proof (cases "rest (source s)")
    case Nil
    with assms P_Next show ?thesis
      by (intro Next_end[of c]) (auto simp: producer_Next_def Let_def split: if_splits)
  next
    case (Cons x xs)
    show ?thesis
    proof (cases c)
      case None
      with assms P_Next Cons show ?thesis
        by (intro Next_item[of c "fresh (source s)" x xs "Suc (fresh (source s))"])
           (auto simp: producer_Next_def Let_def split: if_splits)
    next
      case (Some old)
      with assms P_Next Cons show ?thesis
        by (intro Next_item[of c "fst old" x xs "fresh (source s)"])
           (auto simp: producer_Next_def Let_def intro: exI[of _ "snd old"] split: if_splits)
    qed
  qed
next
  case (P_Push c)
  show ?thesis
  proof (cases c)
    case None
    with assms P_Push show ?thesis
      by (cases "produce_end s") (auto intro: Push_null End_null)
  next
    case (Some x)
    with assms P_Push show ?thesis
      by (cases "produce_end s") (auto intro: Push Give_back)
  qed
next
  case P_Exit
  with assms show ?thesis by simp
next
  case P_Abort
  with assms show ?thesis by simp
qed


lemma Next_wait_cases [case_names Block Pop End]:
  obtains
    (Block) "queue s = []" "\<not> produce_end s" "Next_wait s = (s, Blocks)"
  | (Pop) c q n where "queue s = c # q"
      "Next_wait s = (s\<lparr>nwait_consumer := n, queue := q\<rparr>, Returns (Some c))"
  | (End) n where "queue s = []" "produce_end s"
      "Next_wait s = (s\<lparr>nwait_consumer := n\<rparr>, Returns None)"
proof (cases "queue s")
  case Nil
  then show ?thesis
    by (cases "produce_end s") (auto simp: Next_wait_def intro: Block End)
next
  case (Cons c q)
  then show ?thesis
    by (intro Pop[of c q]) (simp_all add: Next_wait_def)
qed

lemma Next_enter_cases [case_names Shutdown Rewinding Block Pop End]:
  obtains
    (Shutdown) "producer_sig s = kDestroy" "Next_enter s = (s, Returns None)"
  | (Rewinding) "producer_sig s = kBeforeFirst" "Next_enter s = (s, Abort)"
  | (Block) n where "producer_sig s = kProduce" "queue s = []" "\<not> produce_end s"
      "Next_enter s = (s\<lparr>nwait_consumer := n\<rparr>, Blocks)"
  | (Pop) c q n where "producer_sig s = kProduce" "queue s = c # q"
      "Next_enter s = (s\<lparr>nwait_consumer := n, queue := q\<rparr>, Returns (Some c))"
  | (End) n where "producer_sig s = kProduce" "queue s = []" "produce_end s"
      "Next_enter s = (s\<lparr>nwait_consumer := n\<rparr>, Returns None)"
proof (cases "producer_sig s")
  case kProduce
  then have *: "Next_enter s = Next_wait (s\<lparr>nwait_consumer := nwait_consumer s + 1\<rparr>)"
    by (simp add: Next_enter_def)
  show ?thesis
  proof (cases "s\<lparr>nwait_consumer := nwait_consumer s + 1\<rparr>" rule: Next_wait_cases)
    case Block
    with * kProduce show ?thesis by (intro that(3)) auto
  next
    case (Pop c q n)
    with * kProduce show ?thesis by (intro that(4)[of c q n]) auto
  next
    case (End n)
    with * kProduce show ?thesis by (intro that(5)[of n]) auto
  qed
next
  case kBeforeFirst
  then show ?thesis by (intro Rewinding) (simp_all add: Next_enter_def)
next
  case kDestroy
  then show ?thesis by (intro Shutdown) (simp_all add: Next_enter_def)
qed

lemma cells_of_simps [simp]: "cells_of None = []" "cells_of (Some c) = [c]"
  by (simp_all add: cells_of_def)

lemma Next_void_recycle_eq:
  "Next_void_recycle s = s\<lparr>free_cells := free_cells s @ cells_of (out_data s), out_data := None\<rparr>"
  by (cases "out_data s") (simp_all add: Next_void_recycle_def Recycle_def cells_of_def)

lemma BeforeFirst_enter_cases [case_names Shutdown Unacknowledged Sleep]:
  obtains
    (Shutdown) "producer_sig s = kDestroy"
      "BeforeFirst_enter s =
         (s\<lparr>free_cells := free_cells s @ cells_of (out_data s), out_data := None\<rparr>, Returns ())"
  | (Unacknowledged) "producer_sig s \<noteq> kDestroy" "producer_sig_processed s"
      "BeforeFirst_enter s =
         (s\<lparr>free_cells := free_cells s @ cells_of (out_data s), out_data := None,
             producer_sig := kBeforeFirst\<rparr>, Abort)"
  | (Sleep) "producer_sig s \<noteq> kDestroy" "\<not> producer_sig_processed s"
      "BeforeFirst_enter s =
         (s\<lparr>free_cells := free_cells s @ cells_of (out_data s), out_data := None,
             producer_sig := kBeforeFirst\<rparr>, Blocks)"
proof (cases "producer_sig s = kDestroy")
  case True
  then show ?thesis
    by (intro Shutdown) (cases "out_data s"; simp add: BeforeFirst_enter_def cells_of_def)+
next
  case False
  then show ?thesis
    by (cases "producer_sig_processed s"; cases "out_data s")
       (auto simp: BeforeFirst_enter_def BeforeFirst_wait_def cells_of_def
             intro: Unacknowledged Sleep)
qed


lemma step0_Produce_elim:
  assumes "step0 Produce s = Some s'"
  obtains pc p where "pstep (pthr s) (pipe s) = Some (pc, p)" "s' = s\<lparr>pipe := p, pthr := pc\<rparr>"
  using assms by (auto split: option.splits)

lemma ctl_inv_Produce:
  assumes "ctl_inv s" and "step0 Produce s = Some s'"
  shows "ctl_inv s'"
proof -
  from assms(2) obtain pc p where ps: "pstep (pthr s) (pipe s) = Some (pc, p)"
    and s': "s' = s\<lparr>pipe := p, pthr := pc\<rparr>"
    by (rule step0_Produce_elim)
  from ps show ?thesis
    by (cases rule: pstep_cases)
       (use assms(1) s' in \<open>auto simp: ctl_inv_def rewound_def\<close>)
qed

section \<open>Invariants of the running pipe\<close>

lemmas inv_defs = ctl_inv_def stream_inv_def pending_def

lemma pending_Produce:
  assumes "ctl_inv s" and "pstep (pthr s) (pipe s) = Some (pc, p)"
    and "producer_sig (pipe s) = kProduce"
  shows "pending (s\<lparr>pipe := p, pthr := pc\<rparr>) = pending s"
  using assms(2)
  by (cases rule: pstep_cases) (use assms(1,3) in \<open>auto simp: ctl_inv_def pending_def rewound_def\<close>)

lemma stream_inv_Produce:
  assumes "ctl_inv s" and "stream_inv xs s" and "step0 Produce s = Some s'"
  shows "stream_inv xs s'"
proof -
  from assms(3) obtain pc p where ps: "pstep (pthr s) (pipe s) = Some (pc, p)"
    and s': "s' = s\<lparr>pipe := p, pthr := pc\<rparr>"
    by (rule step0_Produce_elim)
  from ps show ?thesis
    by (cases rule: pstep_cases)
       (use assms(1,2) s' in \<open>auto simp: inv_defs rewound_def\<close>)
qed


lemma pending_ghost [simp]:
  "pending (s\<lparr>cthr := c\<rparr>) = pending s"
  "pending (s\<lparr>held := h\<rparr>) = pending s"
  "pending (s\<lparr>outs := r\<rparr>) = pending s"
  "pending (s\<lparr>passes := rs\<rparr>) = pending s"
  "pending (s\<lparr>peak := k\<rparr>) = pending s"
  by (simp_all add: pending_def)

lemma pending_Cons:
  assumes "stream_inv xs s" and "producer_sig (pipe s) = kProduce" and "queue (pipe s) = c # q"
  shows "length (outs s) < length xs \<and> xs ! length (outs s) = snd c \<and>
         pending (s\<lparr>pipe := (pipe s)\<lparr>nwait_consumer := n, queue := q\<rparr>\<rparr>)
           = drop (Suc (length (outs s))) xs"
proof -
  from assms have "pending s = drop (length (outs s)) xs"
    by (simp add: stream_inv_def)
  with assms(3)
  have "drop (length (outs s)) xs
          = snd c # pending (s\<lparr>pipe := (pipe s)\<lparr>nwait_consumer := n, queue := q\<rparr>\<rparr>)"
    by (auto simp: pending_def)
  from drop_eq_Cons[OF this] show ?thesis by simp
qed

lemma pending_Nil:
  assumes "ctl_inv s" and "stream_inv xs s" and "producer_sig (pipe s) = kProduce"
    and "queue (pipe s) = []" and "produce_end (pipe s)"
  shows "length xs \<le> length (outs s)"
proof -
  from assms have "drop (length (outs s)) xs = []"
    by (simp add: stream_inv_def pending_def ctl_inv_def)
  then show ?thesis by simp
qed

lemma inv_direct_Next:
  assumes "ctl_inv s" and "stream_inv xs s" and "cthr s = C_Idle \<or> cthr s = C_Next"
    and "producer_sig (pipe s) = kProduce"
    and "r = Next_enter (pipe s) \<or> r = Next_wait (pipe s)"
  shows "ctl_inv (direct_Next s r) \<and> stream_inv xs (direct_Next s r)"
proof -
  have len: "\<And>n. length (outs s) = n \<Longrightarrow> outs s = expected xs n"
    using assms(2,4) by (auto simp: stream_inv_def)
  from assms(5) show ?thesis
  proof
    assume r: "r = Next_enter (pipe s)"
    show ?thesis
    proof (cases "pipe s" rule: Next_enter_cases)
      case (Pop c q n)
      from pending_Cons[OF assms(2) Pop(1,2), of n] Pop r assms(1-4) show ?thesis
        by (auto simp: ctl_inv_def stream_inv_def direct_Next_def expected_Suc_Some)
    next
      case (End n)
      from pending_Nil[OF assms(1,2) End(1,2,3)] End r assms(1-4) show ?thesis
        by (auto simp: inv_defs direct_Next_def expected_Suc_None)
    qed (use assms(1-4) r in \<open>auto simp: inv_defs direct_Next_def\<close>)
  next
    assume r: "r = Next_wait (pipe s)"
    show ?thesis
    proof (cases "pipe s" rule: Next_wait_cases)
      case (Pop c q n)
      from pending_Cons[OF assms(2,4) Pop(1), of n] Pop r assms(1-4) show ?thesis
        by (auto simp: ctl_inv_def stream_inv_def direct_Next_def expected_Suc_Some)
    next
      case (End n)
      from pending_Nil[OF assms(1,2,4) End(1,2)] End r assms(1-4) show ?thesis
        by (auto simp: inv_defs direct_Next_def expected_Suc_None)
    qed (use assms(1-4) r in \<open>auto simp: inv_defs direct_Next_def\<close>)
  qed
qed


lemma pending_same:
  "queue p = queue (pipe s) \<Longrightarrow> produce_end p = produce_end (pipe s) \<Longrightarrow>
   source p = source (pipe s) \<Longrightarrow> pending (s\<lparr>pipe := p\<rparr>) = pending s"
  by (simp add: pending_def)

lemma pending_out_data [simp]:
  "pending (s\<lparr>pipe := p\<lparr>out_data := d\<rparr>\<rparr>) = pending (s\<lparr>pipe := p\<rparr>)"
  by (simp add: pending_def)

lemma inv_adapter_Next:
  assumes "ctl_inv s" and "stream_inv xs s" and "cthr s = C_Adv \<or> cthr s = C_AdvNext"
    and "producer_sig (pipe s) = kProduce"
    and "r = Next_enter (pipe s) \<or> r = Next_wait (pipe s)"
  shows "ctl_inv (adapter_Next s r) \<and> stream_inv xs (adapter_Next s r)"
proof -
  from assms(5) show ?thesis
  proof
    assume r: "r = Next_enter (pipe s)"
    show ?thesis
    proof (cases "pipe s" rule: Next_enter_cases)
      case (Pop c q n)
      from pending_Cons[OF assms(2) Pop(1,2), of n] Pop r assms(1-4) show ?thesis
        by (auto simp: ctl_inv_def stream_inv_def adapter_Next_def Next_void_store_def
              Value_def expected_Suc_Some)
    next
      case (End n)
      from pending_Nil[OF assms(1,2) End(1,2,3)] End r assms(1-4) show ?thesis
        by (auto simp: inv_defs adapter_Next_def Next_void_store_def expected_Suc_None)
    qed (use assms(1-4) r in \<open>auto simp: inv_defs adapter_Next_def Next_void_store_def\<close>)
  next
    assume r: "r = Next_wait (pipe s)"
    show ?thesis
    proof (cases "pipe s" rule: Next_wait_cases)
      case (Pop c q n)
      from pending_Cons[OF assms(2,4) Pop(1), of n] Pop r assms(1-4) show ?thesis
        by (auto simp: ctl_inv_def stream_inv_def adapter_Next_def Next_void_store_def
              Value_def expected_Suc_Some)
    next
      case (End n)
      from pending_Nil[OF assms(1,2,4) End(1,2)] End r assms(1-4) show ?thesis
        by (auto simp: inv_defs adapter_Next_def Next_void_store_def expected_Suc_None)
    qed (use assms(1-4) r in \<open>auto simp: inv_defs adapter_Next_def Next_void_store_def\<close>)
  qed
qed

lemma ctl_inv_kProduce:
  "ctl_inv s \<Longrightarrow> cthr s \<noteq> C_BF \<Longrightarrow> producer_sig (pipe s) = kProduce"
  by (cases "producer_sig (pipe s)") (auto simp: ctl_inv_def)

lemma inv_step0:
  assumes "ctl_inv s" and "stream_inv xs s" and "step0 a s = Some s'"
  shows "ctl_inv s' \<and> stream_inv xs s'"
proof (cases a)
  case Produce
  with assms ctl_inv_Produce[of s s'] stream_inv_Produce[of s xs s'] show ?thesis by simp
next
  case CallNext
  with assms have "cthr s = C_Idle" and "s' = direct_Next s (Next_enter (pipe s))"
    by (auto split: if_splits)
  with inv_direct_Next[OF assms(1,2), of "Next_enter (pipe s)"] ctl_inv_kProduce[OF assms(1)]
  show ?thesis by simp
next
  case (CallRecycle i)
  with assms(3) have s': "s' = s\<lparr>pipe := Recycle (held s ! i) (pipe s),
                          held := take i (held s) @ drop (Suc i) (held s)\<rparr>"
    by (auto split: if_splits)
  from assms(1,2) show ?thesis
    unfolding s' by (simp add: ctl_inv_def stream_inv_def Recycle_def pending_same)
next
  case CallAdvance
  with assms(3) have s': "s' = s\<lparr>pipe := Next_void_recycle (pipe s), cthr := C_Adv\<rparr>"
    and idle: "cthr s = C_Idle"
    by (auto split: if_splits)
  from assms(1,2) idle show ?thesis
    unfolding s' by (simp add: ctl_inv_def stream_inv_def Next_void_recycle_eq pending_same)
next
  case CallBeforeFirst
  with assms have idle: "cthr s = C_Idle"
    and s': "s' = rewind_call (s\<lparr>passes := passes s @ [outs s], outs := []\<rparr>)
                    (BeforeFirst_enter (pipe s))"
    by (auto split: if_splits)
  from ctl_inv_kProduce[OF assms(1)] idle have sig: "producer_sig (pipe s) = kProduce" by simp
  show ?thesis
    by (cases "pipe s" rule: BeforeFirst_enter_cases)
       (use assms(1,2) idle s' sig in \<open>auto simp: inv_defs rewind_call_def\<close>)
next
  case Resume
  show ?thesis
  proof (cases "cthr s")
    case C_Next
    with Resume assms(3) have "s' = direct_Next s (Next_wait (pipe s))"
      by (auto split: if_splits)
    with inv_direct_Next[OF assms(1,2), of "Next_wait (pipe s)"] ctl_inv_kProduce[OF assms(1)] C_Next
    show ?thesis by simp
  next
    case C_Adv
    with Resume assms(3) have "s' = adapter_Next s (Next_enter (pipe s))"
      by (auto split: if_splits)
    with inv_adapter_Next[OF assms(1,2), of "Next_enter (pipe s)"] ctl_inv_kProduce[OF assms(1)] C_Adv
    show ?thesis by simp
  next
    case C_AdvNext
    with Resume assms(3) have "s' = adapter_Next s (Next_wait (pipe s))"
      by (auto split: if_splits)
    with inv_adapter_Next[OF assms(1,2), of "Next_wait (pipe s)"] ctl_inv_kProduce[OF assms(1)] C_AdvNext
    show ?thesis by simp
  next
    case C_BF
    with Resume assms(3) have ack: "producer_sig_processed (pipe s)"
      and s': "s' = s\<lparr>pipe := (pipe s)\<lparr>producer_sig_processed := False\<rparr>, cthr := C_Idle\<rparr>"
      by (auto simp: rewind_call_def BeforeFirst_wait_def is_Blocks_def split: if_splits)
    from assms(1) ack C_BF have "producer_sig (pipe s) = kProduce"
      by (cases "producer_sig (pipe s)") (auto simp: ctl_inv_def)
    with assms(1,2) C_BF ack show ?thesis
      unfolding s' by (simp add: ctl_inv_def stream_inv_def pending_same)
  qed (use Resume assms(3) in auto)
qed

text \<open>
  The capacity invariant. A cell is allocated only by \<open>next\<close> called with an
  empty handle, that is from control point \<open>P_Next None\<close>, which is entered
  only with an empty free pool and a ready queue below capacity.
\<close>

definition cap_inv :: "'a sys \<Rightarrow> bool" where
  "cap_inv s \<longleftrightarrow>
     loans s \<le> peak s \<and>
     (cthr s = C_Adv \<longrightarrow> out_data (pipe s) = None) \<and>
     (cthr s = C_AdvNext \<longrightarrow> out_data (pipe s) = None) \<and>
     alive s \<le> max_capacity (pipe s) + peak s \<and>
     (pthr s = P_Next None \<longrightarrow> alive s < max_capacity (pipe s) + peak s)"

lemmas cap_defs = cap_inv_def alive_def loans_def

lemma cap_inv_start: "cap_inv (start cap j1 j2 j3 p)"
  by (simp add: cap_defs start_def Init_closures_def ThreadedIter_def)

lemma cap_inv_Produce:
  assumes "cap_inv s" and "step0 Produce s = Some s'"
  shows "cap_inv (s'\<lparr>peak := max (peak s') (loans s')\<rparr>) \<and> max_capacity (pipe s') = max_capacity (pipe s)"
proof -
  from assms(2) obtain pc p where ps: "pstep (pthr s) (pipe s) = Some (pc, p)"
    and s': "s' = s\<lparr>pipe := p, pthr := pc\<rparr>"
    by (rule step0_Produce_elim)
  from ps show ?thesis
    by (cases rule: pstep_cases)
       (use assms(1) s' in \<open>auto simp: cap_defs\<close>)
qed


lemma length_remove_nth:
  "i < length xs \<Longrightarrow> length (take i xs @ drop (Suc i) xs) = length xs - 1"
  by simp

lemma cap_inv_direct_Next:
  assumes "cap_inv s" and "cthr s = C_Idle \<or> cthr s = C_Next"
    and "r = Next_enter (pipe s) \<or> r = Next_wait (pipe s)" and "s' = direct_Next s r"
  shows "cap_inv (s'\<lparr>peak := max (peak s') (loans s')\<rparr>) \<and> max_capacity (pipe s') = max_capacity (pipe s)"
  using assms(3)
proof
  assume r: "r = Next_enter (pipe s)"
  show ?thesis
    by (cases "pipe s" rule: Next_enter_cases)
       (use assms(1,2,4) r in \<open>auto simp: cap_defs direct_Next_def\<close>)
next
  assume r: "r = Next_wait (pipe s)"
  show ?thesis
    by (cases "pipe s" rule: Next_wait_cases)
       (use assms(1,2,4) r in \<open>auto simp: cap_defs direct_Next_def\<close>)
qed

lemma cap_inv_adapter_Next:
  assumes "cap_inv s" and "cthr s = C_Adv \<or> cthr s = C_AdvNext"
    and "r = Next_enter (pipe s) \<or> r = Next_wait (pipe s)" and "s' = adapter_Next s r"
  shows "cap_inv (s'\<lparr>peak := max (peak s') (loans s')\<rparr>) \<and> max_capacity (pipe s') = max_capacity (pipe s)"
  using assms(3)
proof
  assume r: "r = Next_enter (pipe s)"
  show ?thesis
    by (cases "pipe s" rule: Next_enter_cases)
       (use assms(1,2,4) r in \<open>auto simp: cap_defs adapter_Next_def Next_void_store_def Value_def\<close>)
next
  assume r: "r = Next_wait (pipe s)"
  show ?thesis
    by (cases "pipe s" rule: Next_wait_cases)
       (use assms(1,2,4) r in \<open>auto simp: cap_defs adapter_Next_def Next_void_store_def Value_def\<close>)
qed

lemma cap_inv_step0:
  assumes "cap_inv s" and "step0 a s = Some s'"
  shows "cap_inv (s'\<lparr>peak := max (peak s') (loans s')\<rparr>) \<and> max_capacity (pipe s') = max_capacity (pipe s)"
proof (cases a)
  case Produce
  with assms cap_inv_Produce[of s s'] show ?thesis by simp
next
  case CallNext
  with assms(2) have "cthr s = C_Idle" and "s' = direct_Next s (Next_enter (pipe s))"
    by (auto split: if_splits)
  with cap_inv_direct_Next[OF assms(1), of "Next_enter (pipe s)" s'] show ?thesis by simp
next
  case (CallRecycle i)
  with assms show ?thesis
    by (auto simp: cap_defs Recycle_def split: if_splits)
next
  case CallAdvance
  with assms show ?thesis
    by (auto simp: cap_defs Next_void_recycle_eq split: if_splits)
next
  case CallBeforeFirst
  with assms(2) have idle: "cthr s = C_Idle"
    and s': "s' = rewind_call (s\<lparr>passes := passes s @ [outs s], outs := []\<rparr>)
                    (BeforeFirst_enter (pipe s))"
    by (auto split: if_splits)
  show ?thesis
    by (cases "pipe s" rule: BeforeFirst_enter_cases)
       (use assms(1) idle s' in \<open>auto simp: cap_defs rewind_call_def\<close>)
next
  case Resume
  show ?thesis
  proof (cases "cthr s")
    case C_Next
    with Resume assms(2) have "s' = direct_Next s (Next_wait (pipe s))"
      by (auto split: if_splits)
    with cap_inv_direct_Next[OF assms(1), of "Next_wait (pipe s)" s'] C_Next
    show ?thesis by simp
  next
    case C_Adv
    with Resume assms(2) have "s' = adapter_Next s (Next_enter (pipe s))"
      by (auto split: if_splits)
    with cap_inv_adapter_Next[OF assms(1), of "Next_enter (pipe s)" s'] C_Adv
    show ?thesis by simp
  next
    case C_AdvNext
    with Resume assms(2) have "s' = adapter_Next s (Next_wait (pipe s))"
      by (auto split: if_splits)
    with cap_inv_adapter_Next[OF assms(1), of "Next_wait (pipe s)" s'] C_AdvNext
    show ?thesis by simp
  next
    case C_BF
    with Resume assms show ?thesis
      by (auto simp: cap_defs rewind_call_def BeforeFirst_wait_def is_Blocks_def split: if_splits)
  qed (use Resume assms(2) in auto)
qed

lemma inv_peak [simp]:
  "ctl_inv (s\<lparr>peak := k\<rparr>) = ctl_inv s"
  "stream_inv xs (s\<lparr>peak := k\<rparr>) = stream_inv xs s"
  by (simp_all add: ctl_inv_def stream_inv_def)

lemma step_elim:
  assumes "step a s = Some s'"
  obtains s0 where "step0 a s = Some s0" "s' = s0\<lparr>peak := max (peak s0) (loans s0)\<rparr>"
  using assms by (auto simp: step_def split: option.splits)

text \<open>The three invariants together, for a pipe of capacity \<open>cap\<close> over the items \<open>xs\<close>.\<close>

definition sys_inv :: "'a list \<Rightarrow> nat \<Rightarrow> 'a sys \<Rightarrow> bool" where
  "sys_inv xs cap s \<longleftrightarrow>
     ctl_inv s \<and> stream_inv xs s \<and> cap_inv s \<and> max_capacity (pipe s) = cap"

lemma sys_inv_start: "has_reset p \<Longrightarrow> sys_inv (items p) cap (start cap j1 j2 j3 p)"
  using ctl_inv_start[of p cap j1 j2 j3] stream_inv_start[of p cap j1 j2 j3]
    cap_inv_start[of cap j1 j2 j3 p]
  by (simp add: sys_inv_def) (simp add: start_def Init_closures_def ThreadedIter_def)

lemma sys_inv_step:
  assumes "sys_inv xs cap s" and "step a s = Some s'"
  shows "sys_inv xs cap s'"
proof -
  from assms(2) obtain s0 where s0: "step0 a s = Some s0"
    and s': "s' = s0\<lparr>peak := max (peak s0) (loans s0)\<rparr>"
    by (rule step_elim)
  from assms(1) inv_step0[OF _ _ s0, of xs] cap_inv_step0[OF _ s0] s'
  show ?thesis by (simp add: sys_inv_def)
qed

lemma sys_inv_run:
  "sys_inv xs cap s \<Longrightarrow> run sch s = Some s' \<Longrightarrow> sys_inv xs cap s'"
proof (induction sch arbitrary: s)
  case Nil
  then show ?case by simp
next
  case (Cons a sch)
  from Cons.prems(2) obtain s1 where s1: "step a s = Some s1" and r: "run sch s1 = Some s'"
    by (auto split: option.splits)
  from Cons.IH[OF sys_inv_step[OF Cons.prems(1) s1] r] show ?case .
qed

lemma run_append:
  "run (sch1 @ sch2) s = (case run sch1 s of None \<Rightarrow> None | Some s1 \<Rightarrow> run sch2 s1)"
  by (induction sch1 arbitrary: s) (auto split: option.splits)


text \<open>
  Progress of a pull: while the consumer sleeps in \<open>Next\<close> and the capacity is
  positive, the producer thread can step, and after at most four of its steps
  the ready queue is non-empty or the end of the stream is set.
\<close>

fun pull_distance :: "'a ppc \<Rightarrow> nat" where
  "pull_distance P_Start = 4"
| "pull_distance P_Loop = 3"
| "pull_distance P_Wait = 3"
| "pull_distance (P_Next c) = 2"
| "pull_distance (P_Push c) = 1"
| "pull_distance P_Exit = 0"
| "pull_distance P_Abort = 0"

definition pull_ready :: "'a sys \<Rightarrow> bool" where
  "pull_ready s \<longleftrightarrow> queue (pipe s) \<noteq> [] \<or> produce_end (pipe s)"

lemma pull_step:
  assumes "ctl_inv s" and "producer_sig (pipe s) = kProduce" and "0 < max_capacity (pipe s)"
    and "\<not> pull_ready s"
  shows "\<exists>s'. step Produce s = Some s' \<and> cthr s' = cthr s \<and>
           producer_sig (pipe s') = kProduce \<and> max_capacity (pipe s') = max_capacity (pipe s) \<and>
           (pull_ready s' \<or> pull_distance (pthr s') < pull_distance (pthr s))"
proof (cases "pthr s")
  case P_Start
  with assms show ?thesis by (simp add: step_def pull_ready_def ctl_inv_def)
next
  case P_Loop
  with assms show ?thesis
    by (cases "free_cells (pipe s)")
       (simp_all add: step_def pull_ready_def producer_wait_pred_def producer_locked_def Let_def)
next
  case P_Wait
  with assms show ?thesis
    by (cases "free_cells (pipe s)")
       (simp_all add: step_def pull_ready_def producer_wait_pred_def producer_locked_def Let_def)
next
  case (P_Next c)
  with assms show ?thesis
    by (cases "rest (source (pipe s))"; cases c)
       (simp_all add: step_def pull_ready_def producer_Next_def Let_def)
next
  case (P_Push c)
  with assms show ?thesis
    by (cases c) (simp_all add: step_def pull_ready_def ctl_inv_def)
qed (use assms in \<open>simp_all add: ctl_inv_def\<close>)

lemma pull_progress:
  assumes "producer_sig (pipe s) = kProduce" and "0 < max_capacity (pipe s)"
    and "pull_distance (pthr s) \<le> k" and "ctl_inv s" and "stream_inv xs s" and "cap_inv s"
  shows "\<exists>n\<le>k. \<exists>s'. run (replicate n Produce) s = Some s' \<and> cthr s' = cthr s \<and> pull_ready s'"
  using assms
proof (induction k arbitrary: s)
  case 0
  then have "pthr s = P_Exit \<or> pthr s = P_Abort"
    by (cases "pthr s") simp_all
  with 0 show ?case by (simp add: ctl_inv_def)
next
  case (Suc k)
  show ?case
  proof (cases "pull_ready s")
    case True
    then show ?thesis by (intro exI[of _ 0]) simp
  next
    case False
    from pull_step[OF Suc.prems(4,1,2) False] obtain s1 where
      s1: "step Produce s = Some s1" "cthr s1 = cthr s" "producer_sig (pipe s1) = kProduce"
          "max_capacity (pipe s1) = max_capacity (pipe s)"
          "pull_ready s1 \<or> pull_distance (pthr s1) < pull_distance (pthr s)"
      by blast
    from sys_inv_step[OF _ s1(1), of xs "max_capacity (pipe s)"] Suc.prems(4,5,6)
    have inv1: "ctl_inv s1" "stream_inv xs s1" "cap_inv s1" by (simp_all add: sys_inv_def)
    show ?thesis
    proof (cases "pull_ready s1")
      case True
      with s1 show ?thesis by (intro exI[of _ 1]) simp
    next
      case False
      with s1(5) Suc.prems(3) have "pull_distance (pthr s1) \<le> k" by simp
      from Suc.IH[OF s1(3) _ this inv1] s1(4) Suc.prems(2)
      obtain n s' where "n \<le> k" "run (replicate n Produce) s1 = Some s'" "cthr s' = cthr s1"
        "pull_ready s'" by auto
      with s1 show ?thesis by (intro exI[of _ "Suc n"]) simp
    qed
  qed
qed

lemma pull_returns:
  assumes "sys_inv xs cap s" and "0 < cap" and "cthr s = C_Next \<or> cthr s = C_AdvNext"
  shows "\<exists>n\<le>4. run (replicate n Produce @ [Resume]) s \<noteq> None"
proof -
  from assms have sig: "producer_sig (pipe s) = kProduce"
    by (auto simp: sys_inv_def dest: ctl_inv_kProduce)
  have "pull_distance (pthr s) \<le> 4" by (cases "pthr s") simp_all
  moreover from assms(1,2) have "0 < max_capacity (pipe s)" "ctl_inv s" "stream_inv xs s" "cap_inv s"
    by (simp_all add: sys_inv_def)
  ultimately obtain n s' where n: "n \<le> 4" "run (replicate n Produce) s = Some s'"
    "cthr s' = cthr s" "pull_ready s'"
    using pull_progress[OF sig, of 4 xs] by blast
  from n(4) have "\<not> is_Blocks (Next_wait (pipe s'))"
    by (cases "pipe s'" rule: Next_wait_cases) (simp_all add: is_Blocks_def pull_ready_def)
  with n(3) assms(3) have "step Resume s' \<noteq> None"
    by (auto simp: step_def)
  with n show ?thesis
    by (intro exI[of _ n]) (auto simp: run_append split: option.splits)
qed


text \<open>
  Progress of a rewind: while the consumer sleeps in \<open>BeforeFirst\<close>, the
  producer thread reaches its acknowledgement in at most three steps.
\<close>

fun ack_distance :: "'a ppc \<Rightarrow> nat" where
  "ack_distance P_Start = 2"
| "ack_distance P_Loop = 1"
| "ack_distance P_Wait = 1"
| "ack_distance (P_Next c) = 3"
| "ack_distance (P_Push c) = 2"
| "ack_distance P_Exit = 0"
| "ack_distance P_Abort = 0"

lemma ack_step:
  assumes "ctl_inv s" and "producer_sig (pipe s) = kBeforeFirst"
  shows "\<exists>s'. step Produce s = Some s' \<and> cthr s' = cthr s \<and>
           (producer_sig_processed (pipe s') \<or>
            producer_sig (pipe s') = kBeforeFirst \<and> ack_distance (pthr s') < ack_distance (pthr s))"
proof (cases "pthr s")
  case P_Start
  with assms show ?thesis by (simp add: step_def ctl_inv_def)
next
  case P_Loop
  with assms show ?thesis
    by (simp add: step_def producer_wait_pred_def producer_locked_def Let_def ctl_inv_def)
next
  case P_Wait
  with assms show ?thesis
    by (simp add: step_def producer_wait_pred_def producer_locked_def Let_def ctl_inv_def)
next
  case (P_Next c)
  with assms show ?thesis
    by (cases "rest (source (pipe s))"; cases c)
       (simp_all add: step_def producer_Next_def Let_def)
next
  case (P_Push c)
  with assms show ?thesis
    by (cases c) (auto simp: step_def ctl_inv_def)
qed (use assms in \<open>simp_all add: ctl_inv_def\<close>)

lemma ack_progress:
  assumes "cthr s = C_BF" and "ack_distance (pthr s) \<le> k" and "sys_inv xs cap s"
  shows "\<exists>n\<le>k. \<exists>s'. run (replicate n Produce) s = Some s' \<and> cthr s' = C_BF \<and>
           producer_sig_processed (pipe s')"
  using assms
proof (induction k arbitrary: s)
  case 0
  then have "pthr s = P_Exit \<or> pthr s = P_Abort"
    by (cases "pthr s") simp_all
  with 0 show ?case by (simp add: sys_inv_def ctl_inv_def)
next
  case (Suc k)
  show ?case
  proof (cases "producer_sig_processed (pipe s)")
    case True
    with Suc.prems(1) show ?thesis by (intro exI[of _ 0]) simp
  next
    case False
    with Suc.prems(1,3) have "ctl_inv s" "producer_sig (pipe s) = kBeforeFirst"
      by (cases "producer_sig (pipe s)"; simp add: sys_inv_def ctl_inv_def)+
    from ack_step[OF this] Suc.prems(1) obtain s1 where
      s1: "step Produce s = Some s1" "cthr s1 = C_BF"
          "producer_sig_processed (pipe s1) \<or> ack_distance (pthr s1) < ack_distance (pthr s)"
      by auto
    note inv1 = sys_inv_step[OF Suc.prems(3) s1(1)]
    show ?thesis
    proof (cases "producer_sig_processed (pipe s1)")
      case True
      with s1 show ?thesis by (intro exI[of _ 1]) simp
    next
      case False
      with s1(3) Suc.prems(2) have "ack_distance (pthr s1) \<le> k" by simp
      from Suc.IH[OF s1(2) this inv1]
      obtain n s' where "n \<le> k" "run (replicate n Produce) s1 = Some s'" "cthr s' = C_BF"
        "producer_sig_processed (pipe s')" by auto
      with s1 show ?thesis by (intro exI[of _ "Suc n"]) simp
    qed
  qed
qed

lemma rewind_returns:
  assumes "sys_inv xs cap s" and "cthr s = C_BF"
  shows "\<exists>n\<le>3. run (replicate n Produce @ [Resume]) s \<noteq> None"
proof -
  have "ack_distance (pthr s) \<le> 3" by (cases "pthr s") simp_all
  from ack_progress[OF assms(2) this assms(1)]
  obtain n s' where n: "n \<le> 3" "run (replicate n Produce) s = Some s'" "cthr s' = C_BF"
    "producer_sig_processed (pipe s')" by blast
  from n(3,4) have "step Resume s' \<noteq> None"
    by (simp add: step_def is_Blocks_def BeforeFirst_wait_def)
  with n show ?thesis
    by (intro exI[of _ n]) (auto simp: run_append split: option.splits)
qed

lemma stream_None:
  assumes "ctl_inv s" and "stream_inv xs s" and "None \<in> set (outs s)"
  shows "produce_end (pipe s) \<and> queue (pipe s) = []"
proof -
  from assms(2,3) have nbf: "cthr s \<noteq> C_BF" by (auto simp: stream_inv_def)
  with assms(1) have sig: "producer_sig (pipe s) = kProduce" by (rule ctl_inv_kProduce)
  with assms(2) have o: "outs s = expected xs (length (outs s))"
    and p: "pending s = drop (length (outs s)) xs"
    and e: "length xs < length (outs s) \<longrightarrow> produce_end (pipe s)"
    by (simp_all add: stream_inv_def)
  from assms(3) o have "None \<in> set (expected xs (length (outs s)))" by simp
  then have "length xs < length (outs s)"
    by (auto simp: expected_def)
  with p e show ?thesis by (simp add: pending_def)
qed


text \<open>A consumer that never calls \<open>Next(&p)\<close> holds at most the adapter's cell.\<close>

definition adapter_only :: "'a sys \<Rightarrow> bool" where
  "adapter_only s \<longleftrightarrow> held s = [] \<and> cthr s \<noteq> C_Next \<and> peak s \<le> 1"

lemma loans_le_1: "held s = [] \<Longrightarrow> loans s \<le> 1"
  by (cases "out_data (pipe s)") (simp_all add: loans_def)

lemma adapter_only_step:
  assumes "adapter_only s" and "step a s = Some s'" and "a \<noteq> CallNext"
  shows "adapter_only s'"
proof -
  from assms(2) obtain s0 where s0: "step0 a s = Some s0"
    and s': "s' = s0\<lparr>peak := max (peak s0) (loans s0)\<rparr>"
    by (rule step_elim)
  have "held s0 = [] \<and> cthr s0 \<noteq> C_Next \<and> peak s0 = peak s"
  proof (cases a)
    case Produce
    with s0 assms(1) show ?thesis by (auto simp: adapter_only_def split: option.splits)
  next
    case (CallRecycle i)
    with s0 assms(1) show ?thesis by (auto simp: adapter_only_def split: if_splits)
  next
    case CallAdvance
    with s0 assms(1) show ?thesis by (auto simp: adapter_only_def split: if_splits)
  next
    case CallBeforeFirst
    with s0 assms(1) show ?thesis
      by (cases "pipe s" rule: BeforeFirst_enter_cases)
         (auto simp: adapter_only_def rewind_call_def split: if_splits)
  next
    case Resume
    show ?thesis
    proof (cases "cthr s")
      case C_Adv
      with Resume s0 assms(1) show ?thesis
        by (cases "pipe s" rule: Next_enter_cases)
           (auto simp: adapter_only_def adapter_Next_def Next_void_store_def Value_def)
    next
      case C_AdvNext
      with Resume s0 assms(1) show ?thesis
        by (cases "pipe s" rule: Next_wait_cases)
           (auto simp: adapter_only_def adapter_Next_def Next_void_store_def Value_def is_Blocks_def)
    next
      case C_BF
      with Resume s0 assms(1) show ?thesis
        by (auto simp: adapter_only_def rewind_call_def BeforeFirst_wait_def is_Blocks_def
              split: if_splits)
    qed (use Resume s0 assms(1) in \<open>auto simp: adapter_only_def\<close>)
  qed (use assms(3) in simp)
  with assms(1) loans_le_1[of s0] show ?thesis
    unfolding s' by (simp add: adapter_only_def)
qed

lemma adapter_only_run:
  "adapter_only s \<Longrightarrow> run sch s = Some s' \<Longrightarrow> CallNext \<notin> set sch \<Longrightarrow> adapter_only s'"
proof (induction sch arbitrary: s)
  case Nil
  then show ?case by simp
next
  case (Cons a sch)
  from Cons.prems(2) obtain s1 where s1: "step a s = Some s1" and r: "run sch s1 = Some s'"
    by (auto split: option.splits)
  from Cons.prems(3) have "a \<noteq> CallNext" "CallNext \<notin> set sch" by auto
  from Cons.IH[OF adapter_only_step[OF Cons.prems(1) s1 this(1)] r this(2)] show ?case .
qed



subsection \<open>A producer without a reset\<close>

text \<open>
  When the producer has no reset, the first statement of the producer
  thread is fatal: the thread is at \<open>P_Start\<close> or has aborted, nothing is ever
  produced, and no pull completes. The capacity invariant does not depend on
  the producer and holds here as well.
\<close>

definition dead_inv :: "'a sys \<Rightarrow> bool" where
  "dead_inv s \<longleftrightarrow>
     \<not> has_reset (source (pipe s)) \<and> (pthr s = P_Start \<or> pthr s = P_Abort) \<and>
     producer_sig (pipe s) \<noteq> kDestroy \<and>
     (producer_sig (pipe s) = kBeforeFirst \<longrightarrow> cthr s = C_BF) \<and>
     queue (pipe s) = [] \<and> \<not> produce_end (pipe s) \<and>
     \<not> producer_sig_processed (pipe s) \<and> cthr s \<noteq> C_Abort \<and>
     outs s = [] \<and> (\<forall>r \<in> set (passes s). r = [])"

lemma dead_inv_start: "\<not> has_reset p \<Longrightarrow> dead_inv (start cap j1 j2 j3 p)"
  by (simp add: dead_inv_def start_def Init_closures_def ThreadedIter_def)

lemma dead_Next_enter:
  assumes "dead_inv s" and "cthr s \<noteq> C_BF"
  shows "Next_enter (pipe s)
           = ((pipe s)\<lparr>nwait_consumer := nwait_consumer (pipe s) + 1\<rparr>, Blocks)"
proof -
  from assms have "producer_sig (pipe s) = kProduce"
    by (cases "producer_sig (pipe s)") (auto simp: dead_inv_def)
  with assms(1) show ?thesis by (simp add: Next_enter_def Next_wait_def dead_inv_def)
qed

lemma dead_inv_step0:
  assumes "dead_inv s" and "step0 a s = Some s'"
  shows "dead_inv s'"
proof (cases a)
  case Produce
  with assms(2) obtain pc p where ps: "pstep (pthr s) (pipe s) = Some (pc, p)"
    and s': "s' = s\<lparr>pipe := p, pthr := pc\<rparr>"
    by (auto split: option.splits)
  from ps show ?thesis
    by (cases rule: pstep_cases) (use assms(1) s' in \<open>auto simp: dead_inv_def\<close>)
next
  case CallNext
  with assms(2) have "cthr s = C_Idle" and "s' = direct_Next s (Next_enter (pipe s))"
    by (auto split: if_splits)
  with dead_Next_enter[OF assms(1)] assms(1) show ?thesis
    by (simp add: direct_Next_def dead_inv_def)
next
  case (CallRecycle i)
  with assms show ?thesis by (auto simp: dead_inv_def Recycle_def split: if_splits)
next
  case CallAdvance
  with assms show ?thesis
    by (auto simp: dead_inv_def Next_void_recycle_def Recycle_def split: if_splits option.splits)
next
  case CallBeforeFirst
  with assms(2) have c: "cthr s = C_Idle"
    and s': "s' = rewind_call (s\<lparr>passes := passes s @ [outs s], outs := []\<rparr>)
                    (BeforeFirst_enter (pipe s))"
    by (auto split: if_splits)
  from assms(1) c have "snd (BeforeFirst_enter (pipe s)) = Blocks"
    "producer_sig (fst (BeforeFirst_enter (pipe s))) = kBeforeFirst"
    "queue (fst (BeforeFirst_enter (pipe s))) = []"
    "\<not> produce_end (fst (BeforeFirst_enter (pipe s)))"
    "\<not> producer_sig_processed (fst (BeforeFirst_enter (pipe s)))"
    "source (fst (BeforeFirst_enter (pipe s))) = source (pipe s)"
    by (auto simp: dead_inv_def BeforeFirst_enter_def BeforeFirst_wait_def Let_def
          split: option.splits)
  with assms(1) show ?thesis
    unfolding s' by (cases "BeforeFirst_enter (pipe s)") (simp add: rewind_call_def dead_inv_def)
next
  case Resume
  with assms(2) have r: "resume s = Some s'" by simp
  show ?thesis
  proof (cases "cthr s")
    case C_Adv
    with r have "s' = adapter_Next s (Next_enter (pipe s))" by simp
    with dead_Next_enter[OF assms(1)] C_Adv assms(1) show ?thesis
      by (simp add: adapter_Next_def Next_void_store_def dead_inv_def)
  qed (use r assms(1) in \<open>auto simp: dead_inv_def is_Blocks_def Next_wait_def
          BeforeFirst_wait_def split: if_splits\<close>)
qed

lemma dead_inv_run: "dead_inv s \<Longrightarrow> run sch s = Some s' \<Longrightarrow> dead_inv s'"
proof (induction sch arbitrary: s)
  case Nil
  then show ?case by simp
next
  case (Cons a sch)
  from Cons.prems(2) obtain s1 where s1: "step a s = Some s1" and r: "run sch s1 = Some s'"
    by (auto split: option.splits)
  from s1 obtain s0 where s0: "step0 a s = Some s0"
    and e: "s1 = s0\<lparr>peak := max (peak s0) (loans s0)\<rparr>"
    by (rule step_elim)
  from dead_inv_step0[OF Cons.prems(1) s0] e have "dead_inv s1" by (simp add: dead_inv_def)
  from Cons.IH[OF this r] show ?case .
qed

lemma cap_inv_run:
  "cap_inv s \<Longrightarrow> max_capacity (pipe s) = cap \<Longrightarrow> run sch s = Some s' \<Longrightarrow>
   cap_inv s' \<and> max_capacity (pipe s') = cap"
proof (induction sch arbitrary: s)
  case Nil
  then show ?case by simp
next
  case (Cons a sch)
  from Cons.prems(3) obtain s1 where s1: "step a s = Some s1" and r: "run sch s1 = Some s'"
    by (auto split: option.splits)
  from s1 obtain s0 where s0: "step0 a s = Some s0"
    and e: "s1 = s0\<lparr>peak := max (peak s0) (loans s0)\<rparr>"
    by (rule step_elim)
  from cap_inv_step0[OF Cons.prems(1) s0] e Cons.prems(2)
  have "cap_inv s1" "max_capacity (pipe s1) = cap" by simp_all
  from Cons.IH[OF this r] show ?case .
qed

section \<open>Case analysis of the multi-producer steps\<close>

text \<open>
  The steps of a worker, of \<open>Next\<close> and of the consumer thread as
  elimination rules: one case for each path through the code, with the state
  it leaves.
\<close>

lemma cbq_Push_cases [case_names Killed Full Pushed]:
  obtains
    (Killed) "cbq_killed q" "cbq_Push e q = Returns q"
  | (Full) "\<not> cbq_killed q" "cbq_capacity q \<le> length (cbq_items q)" "cbq_Push e q = Blocks"
  | (Pushed) "\<not> cbq_killed q" "length (cbq_items q) < cbq_capacity q"
      "cbq_Push e q = Returns (q\<lparr>cbq_items := cbq_items q @ [e]\<rparr>)"
  by (cases "cbq_killed q"; cases "length (cbq_items q) < cbq_capacity q")
     (auto simp: cbq_Push_def)

lemma worker_cases [consumes 1, case_names Pull_sleep Pull_item Pull_end Pull_shutdown Pull_abort
    Got_none Got_stop Got_work Work_new Work_reuse Push Push_killed Push_null
    Sentinel Sentinel_killed Sentinel_null]:
  assumes "worker f tid pc m = Some (pc', m')"
  obtains
    (Pull_sleep) n where "pc = W_Loop" "pc' = W_Pull" "producer_sig (loader m) = kProduce"
      "queue (loader m) = []" "\<not> produce_end (loader m)"
      "m' = m\<lparr>loader := (loader m)\<lparr>nwait_consumer := n\<rparr>\<rparr>"
  | (Pull_item) c q n where "pc = W_Loop \<or> pc = W_Pull" "pc' = W_Got (Some c)"
      "pc = W_Loop \<longrightarrow> producer_sig (loader m) = kProduce" "queue (loader m) = c # q"
      "m' = m\<lparr>loader := (loader m)\<lparr>nwait_consumer := n, queue := q\<rparr>\<rparr>"
  | (Pull_end) n where "pc = W_Loop \<or> pc = W_Pull" "pc' = W_Got None"
      "pc = W_Loop \<longrightarrow> producer_sig (loader m) = kProduce" "queue (loader m) = []"
      "produce_end (loader m)"
      "m' = m\<lparr>loader := (loader m)\<lparr>nwait_consumer := n\<rparr>\<rparr>"
  | (Pull_shutdown) "pc = W_Loop" "pc' = W_Got None" "producer_sig (loader m) = kDestroy" "m' = m"
  | (Pull_abort) "pc = W_Loop" "pc' = W_Abort" "producer_sig (loader m) = kBeforeFirst" "m' = m"
  | (Got_none) "pc = W_Got None" "pc' = W_Sentinel" "m' = m"
  | (Got_stop) src where "pc = W_Got (Some src)" "pc' = W_Sentinel" "force_stopped m" "m' = m"
  | (Got_work) src where "pc = W_Got (Some src)" "pc' = W_Work src" "\<not> force_stopped m" "m' = m"
  | (Work_new) src where "pc = W_Work src" "pc' = W_Push (m_fresh m, f (snd src) tid) src"
      "m_free_cells m = []" "m' = m\<lparr>m_fresh := Suc (m_fresh m)\<rparr>"
  | (Work_reuse) src c fs where "pc = W_Work src" "pc' = W_Push (fst c, f (snd src) tid) src"
      "m_free_cells m = c # fs" "m' = m\<lparr>m_free_cells := fs\<rparr>"
  | (Push) c src q where "pc = W_Push c src" "pc' = W_Loop" "mqueue m = Some q"
      "\<not> cbq_killed q" "length (cbq_items q) < cbq_capacity q"
      "m' = m\<lparr>mqueue := Some (q\<lparr>cbq_items := cbq_items q @ [(Some c, Some src)]\<rparr>)\<rparr>"
  | (Push_killed) c src q where "pc = W_Push c src" "pc' = W_Loop" "mqueue m = Some q"
      "cbq_killed q" "m' = m"
  | (Push_null) c src where "pc = W_Push c src" "pc' = W_Abort" "mqueue m = None" "m' = m"
  | (Sentinel) q where "pc = W_Sentinel" "pc' = W_Exit" "mqueue m = Some q"
      "\<not> cbq_killed q" "length (cbq_items q) < cbq_capacity q"
      "m' = m\<lparr>mqueue := Some (q\<lparr>cbq_items := cbq_items q @ [(None, None)]\<rparr>)\<rparr>"
  | (Sentinel_killed) q where "pc = W_Sentinel" "pc' = W_Exit" "mqueue m = Some q"
      "cbq_killed q" "m' = m"
  | (Sentinel_null) "pc = W_Sentinel" "pc' = W_Abort" "mqueue m = None" "m' = m"
proof (cases pc)
  case W_Loop
  show ?thesis
  proof (cases "loader m" rule: Next_enter_cases)
    case Shutdown
    with assms W_Loop show ?thesis by (intro Pull_shutdown) auto
  next
    case Rewinding
    with assms W_Loop show ?thesis by (intro Pull_abort) auto
  next
    case (Block n)
    with assms W_Loop show ?thesis by (intro Pull_sleep[of n]) auto
  next
    case (Pop c q n)
    with assms W_Loop show ?thesis by (intro Pull_item[of c q n]) auto
  next
    case (End n)
    with assms W_Loop show ?thesis by (intro Pull_end[of n]) auto
  qed
next
  case W_Pull
  show ?thesis
  proof (cases "loader m" rule: Next_wait_cases)
    case Block
    with assms W_Pull show ?thesis by auto
  next
    case (Pop c q n)
    with assms W_Pull show ?thesis by (intro Pull_item[of c q n]) auto
  next
    case (End n)
    with assms W_Pull show ?thesis by (intro Pull_end[of n]) auto
  qed
next
  case (W_Got r)
  with assms show ?thesis
    by (cases r; cases "force_stopped m") (auto intro: Got_none Got_stop Got_work)
next
  case (W_Work src)
  with assms show ?thesis
    by (cases "m_free_cells m") (auto intro: Work_new Work_reuse)
next
  case (W_Push c src)
  show ?thesis
  proof (cases "mqueue m")
    case None
    with assms W_Push show ?thesis by (intro Push_null) auto
  next
    case (Some q)
    show ?thesis
    proof (cases "(Some c, Some src)" q rule: cbq_Push_cases)
      case Killed
      with assms W_Push Some show ?thesis by (intro Push_killed[of c src q]) auto
    next
      case Full
      with assms W_Push Some show ?thesis by auto
    next
      case Pushed
      with assms W_Push Some show ?thesis by (intro Push[of c src q]) auto
    qed
  qed
next
  case W_Sentinel
  show ?thesis
  proof (cases "mqueue m")
    case None
    with assms W_Sentinel show ?thesis by (intro Sentinel_null) auto
  next
    case (Some q)
    show ?thesis
    proof (cases "(None :: 'a cell option, None :: 'b cell option)" q rule: cbq_Push_cases)
      case Killed
      with assms W_Sentinel Some show ?thesis by (intro Sentinel_killed[of q]) auto
    next
      case Full
      with assms W_Sentinel Some show ?thesis by auto
    next
      case Pushed
      with assms W_Sentinel Some show ?thesis by (intro Sentinel[of q]) auto
    qed
  qed
next
  case W_Exit
  with assms show ?thesis by simp
next
  case W_Abort
  with assms show ?thesis by simp
qed

lemma wstep_elim:
  assumes "wstep f tid m = Some m'"
  obtains pc pc' m1 where "tid < length (producer_threads m)"
    "producer_threads m ! tid = Some pc" "worker f tid pc m = Some (pc', m1)"
    "m' = m1\<lparr>producer_threads := (producer_threads m1)[tid := Some pc']\<rparr>"
  using assms by (auto simp: wstep_def split: if_splits option.splits)

lemma cbq_Pop_cases [case_names Killed Empty Item]:
  obtains
    (Killed) "cbq_killed q" "cbq_Pop q = Returns (None, q)"
  | (Empty) "\<not> cbq_killed q" "cbq_items q = []" "cbq_Pop q = Blocks"
  | (Item) e es where "\<not> cbq_killed q" "cbq_items q = e # es"
      "cbq_Pop q = Returns (Some e, q\<lparr>cbq_items := es\<rparr>)"
  by (cases "cbq_killed q"; cases "cbq_items q") (auto simp: cbq_Pop_def)

lemma MNext_pop_cases [case_names Null Killed Empty Item Sentinel Last_sentinel]:
  obtains
    (Null) "mqueue m = None" "MNext_pop m = (m, PopCrash)"
  | (Killed) q where "mqueue m = Some q" "cbq_killed q" "MNext_pop m = (m, PopReturns None)"
  | (Empty) q where "mqueue m = Some q" "\<not> cbq_killed q" "cbq_items q = []"
      "MNext_pop m = (m, PopSleeps)"
  | (Item) q c src es where "mqueue m = Some q" "\<not> cbq_killed q"
      "cbq_items q = (Some c, src) # es"
      "MNext_pop m =
         (m\<lparr>mqueue := Some (q\<lparr>cbq_items := es\<rparr>),
            loader := (case src of Some sc \<Rightarrow> Recycle sc (loader m) | None \<Rightarrow> loader m)\<rparr>,
          PopReturns (Some c))"
  | (Sentinel) q src es where "mqueue m = Some q" "\<not> cbq_killed q"
      "cbq_items q = (None, src) # es" "Suc (null_cell_num m) \<noteq> thread_num m"
      "MNext_pop m =
         (m\<lparr>mqueue := Some (q\<lparr>cbq_items := es\<rparr>), null_cell_num := Suc (null_cell_num m)\<rparr>,
          PopAgain)"
  | (Last_sentinel) q src es where "mqueue m = Some q" "\<not> cbq_killed q"
      "cbq_items q = (None, src) # es" "Suc (null_cell_num m) = thread_num m"
      "MNext_pop m =
         (m\<lparr>mqueue := Some (q\<lparr>cbq_items := es\<rparr>), null_cell_num := Suc (null_cell_num m)\<rparr>,
          PopReturns None)"
proof (cases "mqueue m")
  case None
  then show ?thesis by (intro Null) (simp_all add: MNext_pop_def)
next
  case (Some q)
  show ?thesis
  proof (cases q rule: cbq_Pop_cases)
    case Killed
    with Some show ?thesis by (intro that(2)[of q]) (simp_all add: MNext_pop_def)
  next
    case Empty
    with Some show ?thesis by (intro that(3)[of q]) (simp_all add: MNext_pop_def)
  next
    case (Item e es)
    obtain c src where e: "e = (c, src)" by (cases e)
    show ?thesis
    proof (cases c)
      case None
      with Some Item e show ?thesis
        by (cases "Suc (null_cell_num m) = thread_num m")
           (auto simp: MNext_pop_def Let_def intro: that(5)[of q src es] that(6)[of q src es])
    next
      case (Some c')
      with \<open>mqueue m = Some q\<close> Item e show ?thesis
        by (intro that(4)[of q c' src es]) (simp_all add: MNext_pop_def)
    qed
  qed
qed

lemma mresume_cases [consumes 1, case_names Loop_call Adv_finished Adv_pop
    Pop_null Pop_killed Pop_item Pop_sentinel Pop_last
    Join_done Join_range Join_skip Join Reset_shutdown Reset_unack Reset_sleep Rewind_done]:
  assumes "mresume s = Some s'"
  obtains
    (Loop_call) c where "mcthr s = MC_Call c"
      "s' = s\<lparr>mpipe := MNext_void_recycle (mpipe s), mcthr := MC_Adv c\<rparr>"
  | (Adv_finished) c where "mcthr s = MC_Adv c" "MNext_finished (mpipe s)"
      "s' = next_returns c None s"
  | (Adv_pop) c where "mcthr s = MC_Adv c" "\<not> MNext_finished (mpipe s)"
      "s' = s\<lparr>mcthr := MC_Pop c\<rparr>"
  | (Pop_null) c where "mcthr s = MC_Pop c" "mqueue (mpipe s) = None"
      "s' = s\<lparr>mcthr := MC_Abort\<rparr>"
  | (Pop_killed) c q where "mcthr s = MC_Pop c" "mqueue (mpipe s) = Some q" "cbq_killed q"
      "s' = next_returns c None s"
  | (Pop_item) c q d src es where "mcthr s = MC_Pop c" "mqueue (mpipe s) = Some q"
      "\<not> cbq_killed q" "cbq_items q = (Some d, src) # es"
      "s' = next_returns c (Some d)
              (s\<lparr>mpipe := (mpipe s)\<lparr>mqueue := Some (q\<lparr>cbq_items := es\<rparr>),
                    loader := (case src of Some sc \<Rightarrow> Recycle sc (loader (mpipe s))
                               | None \<Rightarrow> loader (mpipe s))\<rparr>\<rparr>)"
  | (Pop_sentinel) c q src es where "mcthr s = MC_Pop c" "mqueue (mpipe s) = Some q"
      "\<not> cbq_killed q" "cbq_items q = (None, src) # es"
      "Suc (null_cell_num (mpipe s)) \<noteq> thread_num (mpipe s)"
      "s' = s\<lparr>mpipe := (mpipe s)\<lparr>mqueue := Some (q\<lparr>cbq_items := es\<rparr>),
                   null_cell_num := Suc (null_cell_num (mpipe s))\<rparr>\<rparr>"
  | (Pop_last) c q src es where "mcthr s = MC_Pop c" "mqueue (mpipe s) = Some q"
      "\<not> cbq_killed q" "cbq_items q = (None, src) # es"
      "Suc (null_cell_num (mpipe s)) = thread_num (mpipe s)"
      "s' = next_returns c None
              (s\<lparr>mpipe := (mpipe s)\<lparr>mqueue := Some (q\<lparr>cbq_items := es\<rparr>),
                    null_cell_num := Suc (null_cell_num (mpipe s))\<rparr>\<rparr>)"
  | (Join_done) tid where "mcthr s = MC_Join tid" "thread_num (mpipe s) \<le> tid"
      "s' = s\<lparr>mcthr := MC_Call Drain2\<rparr>"
  | (Join_range) tid where "mcthr s = MC_Join tid" "tid < thread_num (mpipe s)"
      "length (producer_threads (mpipe s)) \<le> tid" "s' = s\<lparr>mcthr := MC_Abort\<rparr>"
  | (Join_skip) tid where "mcthr s = MC_Join tid" "tid < thread_num (mpipe s)"
      "tid < length (producer_threads (mpipe s))" "producer_threads (mpipe s) ! tid = None"
      "s' = s\<lparr>mcthr := MC_Join (Suc tid)\<rparr>"
  | (Join) tid where "mcthr s = MC_Join tid" "tid < thread_num (mpipe s)"
      "tid < length (producer_threads (mpipe s))"
      "producer_threads (mpipe s) ! tid = Some W_Exit"
      "s' = s\<lparr>mpipe := (mpipe s)\<lparr>producer_threads := (producer_threads (mpipe s))[tid := None]\<rparr>,
              mcthr := MC_Join (Suc tid), trace := trace s @ [EvJoined tid]\<rparr>"
  | (Reset_shutdown) "mcthr s = MC_Reset" "producer_sig (loader (mpipe s)) = kDestroy"
      "s' = rewind_finish
              ((loader (mpipe s))\<lparr>free_cells := free_cells (loader (mpipe s))
                                       @ cells_of (out_data (loader (mpipe s))),
                                    out_data := None\<rparr>)
              (s\<lparr>mpipe := (mpipe s)\<lparr>resets := Suc (resets (mpipe s))\<rparr>,
                 trace := trace s @ [EvReset]\<rparr>)"
  | (Reset_unack) "mcthr s = MC_Reset" "producer_sig (loader (mpipe s)) \<noteq> kDestroy"
      "producer_sig_processed (loader (mpipe s))"
      "s' = s\<lparr>mpipe := (mpipe s)\<lparr>resets := Suc (resets (mpipe s)),
                   loader := (loader (mpipe s))\<lparr>free_cells := free_cells (loader (mpipe s))
                                       @ cells_of (out_data (loader (mpipe s))),
                                    out_data := None, producer_sig := kBeforeFirst\<rparr>\<rparr>,
              trace := trace s @ [EvReset], mcthr := MC_Abort\<rparr>"
  | (Reset_sleep) "mcthr s = MC_Reset" "producer_sig (loader (mpipe s)) \<noteq> kDestroy"
      "\<not> producer_sig_processed (loader (mpipe s))"
      "s' = s\<lparr>mpipe := (mpipe s)\<lparr>resets := Suc (resets (mpipe s)),
                   loader := (loader (mpipe s))\<lparr>free_cells := free_cells (loader (mpipe s))
                                       @ cells_of (out_data (loader (mpipe s))),
                                    out_data := None, producer_sig := kBeforeFirst\<rparr>\<rparr>,
              trace := trace s @ [EvReset], mcthr := MC_Rewind\<rparr>"
  | (Rewind_done) "mcthr s = MC_Rewind" "producer_sig_processed (loader (mpipe s))"
      "s' = rewind_finish ((loader (mpipe s))\<lparr>producer_sig_processed := False\<rparr>) s"
proof (cases "mcthr s")
  case MC_Idle
  with assms show ?thesis by simp
next
  case MC_Abort
  with assms show ?thesis by simp
next
  case (MC_Call c)
  with assms show ?thesis by (intro Loop_call[of c]) auto
next
  case (MC_Adv c)
  with assms show ?thesis
    by (cases "MNext_finished (mpipe s)") (auto intro: Adv_finished[of c] Adv_pop[of c])
next
  case (MC_Pop c)
  show ?thesis
  proof (cases "mpipe s" rule: MNext_pop_cases)
    case Null
    with assms MC_Pop show ?thesis by (intro Pop_null[of c]) auto
  next
    case (Killed q)
    with assms MC_Pop show ?thesis by (intro Pop_killed[of c q]) auto
  next
    case (Empty q)
    with assms MC_Pop show ?thesis by auto
  next
    case (Item q d src es)
    with assms MC_Pop show ?thesis by (intro Pop_item[of c q d src es]) auto
  next
    case (Sentinel q src es)
    with assms MC_Pop show ?thesis by (intro Pop_sentinel[of c q src es]) auto
  next
    case (Last_sentinel q src es)
    with assms MC_Pop show ?thesis by (intro Pop_last[of c q src es]) auto
  qed
next
  case (MC_Join tid)
  show ?thesis
  proof (cases "thread_num (mpipe s) \<le> tid")
    case True
    with assms MC_Join show ?thesis by (intro Join_done[of tid]) auto
  next
    case False
    show ?thesis
    proof (cases "length (producer_threads (mpipe s)) \<le> tid")
      case True
      with assms MC_Join False show ?thesis by (intro Join_range[of tid]) auto
    next
      case inr: False
      show ?thesis
      proof (cases "producer_threads (mpipe s) ! tid")
        case None
        with assms MC_Join False inr show ?thesis by (intro Join_skip[of tid]) auto
      next
        case (Some pc)
        with assms MC_Join False inr show ?thesis
          by (cases "pc = W_Exit") (auto intro: Join[of tid])
      qed
    qed
  qed
next
  case MC_Reset
  show ?thesis
  proof (cases "loader (mpipe s)" rule: BeforeFirst_enter_cases)
    case Shutdown
    with assms MC_Reset show ?thesis by (intro Reset_shutdown) (auto simp: Let_def)
  next
    case Unacknowledged
    with assms MC_Reset show ?thesis by (intro Reset_unack) (auto simp: Let_def)
  next
    case Sleep
    with assms MC_Reset show ?thesis by (intro Reset_sleep) (auto simp: Let_def)
  qed
next
  case MC_Rewind
  with assms show ?thesis
    by (cases "producer_sig_processed (loader (mpipe s))")
       (auto simp: BeforeFirst_wait_def intro: Rewind_done)
qed

lemma mstep_cases [consumes 1, case_names Loader Worker Call_finished Call_pop Recycle Advance
    Rewind_call Resume]:
  assumes "mstep f a s = Some s'"
  obtains
    (Loader) pc l where "pstep (lthr s) (loader (mpipe s)) = Some (pc, l)"
      "s' = s\<lparr>mpipe := (mpipe s)\<lparr>loader := l\<rparr>, lthr := pc\<rparr>"
  | (Worker) tid pc pc' m1 where "tid < length (producer_threads (mpipe s))"
      "producer_threads (mpipe s) ! tid = Some pc" "worker f tid pc (mpipe s) = Some (pc', m1)"
      "s' = s\<lparr>mpipe := m1\<lparr>producer_threads := (producer_threads m1)[tid := Some pc']\<rparr>\<rparr>"
  | (Call_finished) "a = M_CallNext" "mcthr s = MC_Idle" "MNext_finished (mpipe s)"
      "s' = next_returns Direct None s"
  | (Call_pop) "a = M_CallNext" "mcthr s = MC_Idle" "\<not> MNext_finished (mpipe s)"
      "s' = s\<lparr>mcthr := MC_Pop Direct\<rparr>"
  | (Recycle) i where "mcthr s = MC_Idle" "i < length (mheld s)"
      "s' = s\<lparr>mpipe := MRecycle (mheld s ! i) (mpipe s),
              mheld := take i (mheld s) @ drop (Suc i) (mheld s)\<rparr>"
  | (Advance) "mcthr s = MC_Idle"
      "s' = s\<lparr>mpipe := MNext_void_recycle (mpipe s), mcthr := MC_Adv Adapter\<rparr>"
  | (Rewind_call) "a = M_CallBeforeFirst" "mcthr s = MC_Idle"
      "s' = s\<lparr>mpipe := (mpipe s)\<lparr>force_stopped := True\<rparr>, mcthr := MC_Call Drain1,
              trace := [EvForceStop], rewinds := Suc (rewinds s)\<rparr>"
  | (Resume) "a = M_Resume" "mresume s = Some s'"
proof (cases a)
  case M_Loader
  with assms show ?thesis by (auto split: option.splits intro: Loader)
next
  case (M_Worker tid)
  with assms obtain m' where "wstep f tid (mpipe s) = Some m'" "s' = s\<lparr>mpipe := m'\<rparr>"
    by (auto split: option.splits)
  then show ?thesis
    by (elim wstep_elim) (auto intro: Worker)
next
  case M_CallNext
  with assms show ?thesis
    by (cases "MNext_finished (mpipe s)") (auto split: if_splits intro: Call_finished Call_pop)
next
  case (M_CallRecycle i)
  with assms show ?thesis by (auto split: if_splits intro: Recycle)
next
  case M_CallAdvance
  with assms show ?thesis by (auto split: if_splits intro: Advance)
next
  case M_CallBeforeFirst
  with assms show ?thesis by (auto split: if_splits intro: Rewind_call)
next
  case M_Resume
  with assms show ?thesis by (auto intro: Resume)
qed

lemma case_optionE:
  assumes "case x of Some s \<Rightarrow> P s | None \<Rightarrow> False"
  obtains s where "x = Some s" and "P s"
  using assms by (cases x) simp_all

section \<open>Destroy of the multi-producer pipe\<close>

text \<open>
  \<open>Destroy\<close> up to its loop over the threads: the early return, the flag, and
  \<open>queue_->SignalForKill()\<close> through the queue pointer. \<open>Blocks\<close> stands for
  \<open>goes on to the joins\<close>.
\<close>

definition MDestroy_enter :: "('d, 's) miter \<Rightarrow> ('d, 's) miter \<times> unit outcome" where
  "MDestroy_enter m =
     (if force_stopped m then (m, Returns ())
      else (let m1 = m\<lparr>force_stopped := True\<rparr> in
            case mqueue m1 of
              None \<Rightarrow> (m1, Crash)
            | Some q \<Rightarrow> (m1\<lparr>mqueue := Some (cbq_SignalForKill q)\<rparr>, Blocks)))"

text \<open>
  \<open>producer_threads_[tid]->join()\<close> returns when worker \<open>tid\<close> has returned.
  Here that worker is run until then, and the loader's producer thread is run
  whenever the worker sleeps (in \<open>loader_->Next\<close>, or in \<open>Push\<close> on a full queue
  that was not killed). The other workers stay where they are until their own
  join, which is one of the possible interleavings; no step of theirs can
  wake the worker that is joined. The join does not return (\<open>Blocks\<close>) when
  the worker sleeps and the loader's thread cannot step either, and the
  process is gone (\<open>Abort\<close>) when one of the two threads has aborted.

  The recursion ends because each step makes \<open>join_measure\<close> smaller:
  \<open>lwork\<close> bounds the steps the loader's thread has left (under \<open>kProduce\<close> it
  falls with the rest of the source; a pending rewind is counted with the
  whole source it restores), every cell in the loader's ready queue stands
  for one more turn of the worker's loop, and \<open>wrank\<close> is the worker's
  position in its loop.
\<close>

definition lwork :: "'s ppc \<Rightarrow> 's titer \<Rightarrow> nat" where
  "lwork pc l =
     (case producer_sig l of
        kDestroy \<Rightarrow> exit_distance pc
      | kBeforeFirst \<Rightarrow> 16 * length (items (source l)) + 20 + exit_distance pc
      | kProduce \<Rightarrow>
          (case pc of
             P_Start \<Rightarrow> 16 * length (items (source l)) + 16
           | P_Next c \<Rightarrow> 16 * length (rest (source l)) + 9
           | P_Loop \<Rightarrow> 16 * length (rest (source l)) + (if produce_end l then 0 else 8) + 3
           | P_Wait \<Rightarrow> 16 * length (rest (source l)) + (if produce_end l then 0 else 8) + 2
           | P_Push c \<Rightarrow> 16 * length (rest (source l)) + (if produce_end l then 0 else 8) + 4
           | P_Exit \<Rightarrow> 0
           | P_Abort \<Rightarrow> 0))"

fun wrank :: "('d, 's) wpc \<Rightarrow> nat" where
  "wrank W_Exit = 0"
| "wrank W_Abort = 0"
| "wrank W_Sentinel = 1"
| "wrank (W_Got None) = 2"
| "wrank W_Pull = 4"
| "wrank W_Loop = 5"
| "wrank (W_Push c src) = 6"
| "wrank (W_Work src) = 7"
| "wrank (W_Got (Some src)) = 8"

definition join_measure :: "('d, 's) wpc \<Rightarrow> 's ppc \<Rightarrow> ('d, 's) miter \<Rightarrow> nat" where
  "join_measure pc lpc m =
     16 * lwork lpc (loader m) + 9 * length (queue (loader m)) + wrank pc"

lemma lwork_consumer [simp]:
  "lwork pc (l\<lparr>nwait_consumer := n\<rparr>) = lwork pc l"
  "lwork pc (l\<lparr>queue := q\<rparr>) = lwork pc l"
  "lwork pc (l\<lparr>nwait_consumer := n, queue := q\<rparr>) = lwork pc l"
  by (simp_all add: lwork_def split: Signal.splits ppc.splits)

lemma lwork_step:
  assumes "pstep pc l = Some (pc', l')"
  shows "lwork pc' l' < lwork pc l \<and> length (queue l') \<le> Suc (length (queue l))"
  using assms
  by (cases rule: pstep_cases)
     (auto simp: lwork_def producer_wait_pred_def split: Signal.splits if_splits)

lemma worker_measure:
  assumes "worker f tid pc m = Some (pc', m')"
  shows "join_measure pc' lpc m' < join_measure pc lpc m"
  using assms
  by (cases rule: worker_cases) (auto simp: join_measure_def)

lemma loader_measure:
  assumes "pstep lpc (loader m) = Some (lpc', l')"
  shows "join_measure pc lpc' (m\<lparr>loader := l'\<rparr>) < join_measure pc lpc m"
  using lwork_step[OF assms] by (simp add: join_measure_def)

function join_worker ::
    "('s \<Rightarrow> nat \<Rightarrow> 'd) \<Rightarrow> nat \<Rightarrow> ('d, 's) wpc \<Rightarrow> 's ppc \<Rightarrow> ('d, 's) miter
     \<Rightarrow> ('s ppc \<times> ('d, 's) miter) outcome" where
  "join_worker f tid pc lpc m =
     (if pc = W_Exit then Returns (lpc, m)
      else if pc = W_Abort \<or> lpc = P_Abort then Abort
      else (case worker f tid pc m of
              Some (pc', m') \<Rightarrow> join_worker f tid pc' lpc m'
            | None \<Rightarrow>
                (case pstep lpc (loader m) of
                   Some (lpc', l') \<Rightarrow> join_worker f tid pc lpc' (m\<lparr>loader := l'\<rparr>)
                 | None \<Rightarrow> Blocks)))"
  by pat_completeness auto
termination
proof (relation "measure (\<lambda>(f, tid, pc, lpc, m). join_measure pc lpc m)")
  show "wf (measure (\<lambda>(f :: 's \<Rightarrow> nat \<Rightarrow> 'd, tid :: nat, pc, lpc, m).
              join_measure pc lpc m))"
    by simp
next
  fix f :: "'s \<Rightarrow> nat \<Rightarrow> 'd" and tid :: nat and pc :: "('d, 's) wpc" and lpc :: "'s ppc"
    and m :: "('d, 's) miter" and x2 pc' m'
  assume "worker f tid pc m = Some x2" and "(pc', m') = x2"
  then have "join_measure pc' lpc m' < join_measure pc lpc m"
    using worker_measure[of f tid pc m pc' m' lpc] by simp
  then show "((f, tid, pc', lpc, m'), (f, tid, pc, lpc, m))
               \<in> measure (\<lambda>(f, tid, pc, lpc, m). join_measure pc lpc m)"
    by simp
next
  fix f :: "'s \<Rightarrow> nat \<Rightarrow> 'd" and tid :: nat and pc :: "('d, 's) wpc" and lpc :: "'s ppc"
    and m :: "('d, 's) miter" and x2 lpc' l'
  assume "pstep lpc (loader m) = Some x2" and "(lpc', l') = x2"
  then have "join_measure pc lpc' (m\<lparr>loader := l'\<rparr>) < join_measure pc lpc m"
    using loader_measure[of lpc m lpc' l' pc] by simp
  then show "((f, tid, pc, lpc', m\<lparr>loader := l'\<rparr>), (f, tid, pc, lpc, m))
               \<in> measure (\<lambda>(f, tid, pc, lpc, m). join_measure pc lpc m)"
    by simp
qed

declare join_worker.simps [simp del]

lemma join_worker_thread_num:
  "join_worker f tid pc lpc m = Returns (lpc', m') \<Longrightarrow> thread_num m' = thread_num m"
proof (induction f tid pc lpc m rule: join_worker.induct)
  case (1 f tid pc lpc m)
  show ?case
  proof (cases "pc = W_Exit")
    case True
    with 1(3) show ?thesis by (simp add: join_worker.simps)
  next
    case ne: False
    show ?thesis
    proof (cases "pc = W_Abort \<or> lpc = P_Abort")
      case True
      with ne 1(3) show ?thesis by (simp add: join_worker.simps)
    next
      case na: False
      show ?thesis
      proof (cases "worker f tid pc m")
        case (Some x)
        obtain pc1 m1 where x: "x = (pc1, m1)" by (cases x)
        from Some x have w: "worker f tid pc m = Some (pc1, m1)" by simp
        from w ne na 1(3) have "join_worker f tid pc1 lpc m1 = Returns (lpc', m')"
          by (subst (asm) join_worker.simps) simp
        from 1(2)[OF ne na Some x[symmetric] this] have "thread_num m' = thread_num m1" .
        moreover from w have "thread_num m1 = thread_num m"
          by (cases rule: worker_cases) auto
        ultimately show ?thesis by simp
      next
        case None
        show ?thesis
        proof (cases "pstep lpc (loader m)")
          case pn: None
          with None ne na 1(3) show ?thesis by (subst (asm) join_worker.simps) simp
        next
          case (Some y)
          obtain lpc1 l1 where y: "y = (lpc1, l1)" by (cases y)
          from Some y None ne na 1(3)
          have "join_worker f tid pc lpc1 (m\<lparr>loader := l1\<rparr>) = Returns (lpc', m')"
            by (subst (asm) join_worker.simps) simp
          from 1(1)[OF ne na None Some y[symmetric] this] show ?thesis by simp
        qed
      qed
    qed
  qed
qed

text \<open>
  The loop over the threads from index \<open>tid\<close> on: a null slot is skipped, a
  thread is joined and its slot reset. \<open>producer_threads_[tid]\<close> is not range
  checked.
\<close>

function MDestroy_join ::
    "('s \<Rightarrow> nat \<Rightarrow> 'd) \<Rightarrow> nat \<Rightarrow> 's ppc \<Rightarrow> ('d, 's) miter
     \<Rightarrow> ('s ppc \<times> ('d, 's) miter) outcome" where
  "MDestroy_join f tid lpc m =
     (if thread_num m \<le> tid then Returns (lpc, m)
      else if length (producer_threads m) \<le> tid then Crash
      else (case producer_threads m ! tid of
              None \<Rightarrow> MDestroy_join f (Suc tid) lpc m
            | Some pc \<Rightarrow>
                (case join_worker f tid pc lpc m of
                   Returns (lpc', m') \<Rightarrow>
                     MDestroy_join f (Suc tid) lpc'
                       (m'\<lparr>producer_threads := (producer_threads m')[tid := None],
                           m_deleted := m_deleted m' @ [ThreadObj tid]\<rparr>)
                 | Abort \<Rightarrow> Abort
                 | Crash \<Rightarrow> Crash
                 | Blocks \<Rightarrow> Blocks)))"
  by pat_completeness auto
termination
proof (relation "measure (\<lambda>(f, tid, lpc, m). thread_num m - tid)")
  show "wf (measure (\<lambda>(f :: 's \<Rightarrow> nat \<Rightarrow> 'd, tid :: nat, lpc :: 's ppc, m :: ('d, 's) miter).
              thread_num m - tid))"
    by simp
next
  fix f :: "'s \<Rightarrow> nat \<Rightarrow> 'd" and tid :: nat and lpc :: "'s ppc" and m :: "('d, 's) miter"
  assume "\<not> thread_num m \<le> tid"
  then show "((f, Suc tid, lpc, m), (f, tid, lpc, m))
               \<in> measure (\<lambda>(f, tid, lpc, m). thread_num m - tid)"
    by simp
next
  fix f :: "'s \<Rightarrow> nat \<Rightarrow> 'd" and tid :: nat and lpc :: "'s ppc" and m :: "('d, 's) miter"
    and pc x2 lpc' m'
  assume "\<not> thread_num m \<le> tid" and "join_worker f tid pc lpc m = Returns x2"
    and "(lpc', m') = x2"
  then have "thread_num m' = thread_num m"
    using join_worker_thread_num[of f tid pc lpc m lpc' m'] by simp
  with \<open>\<not> thread_num m \<le> tid\<close>
  show "((f, Suc tid, lpc', m'\<lparr>producer_threads := (producer_threads m')[tid := None],
                              m_deleted := m_deleted m' @ [ThreadObj tid]\<rparr>), (f, tid, lpc, m))
          \<in> measure (\<lambda>(f, tid, lpc, m). thread_num m - tid)"
    by simp
qed

declare MDestroy_join.simps [simp del]

text \<open>
  After the joins: the loader is destroyed (its producer thread is at \<open>lpc\<close>),
  the free cells are deleted, the pairs still in the queue are popped and
  deleted as long as \<open>Pop\<close> succeeds, and the adapter's cell is deleted.
\<close>

definition pair_objs :: "'d cell option \<times> 's cell option \<Rightarrow> obj list" where
  "pair_objs e = map (CellObj \<circ> fst) (cells_of (fst e)) @ map (CellObj \<circ> fst) (cells_of (snd e))"

fun drain_deleting :: "nat \<Rightarrow> ('d cell option \<times> 's cell option) cbq
    \<Rightarrow> ('d cell option \<times> 's cell option) cbq \<times> obj list" where
  "drain_deleting 0 q = (q, [])"
| "drain_deleting (Suc k) q =
     (if 0 < cbq_Size q
      then (case cbq_Pop q of
              Returns (Some e, q') \<Rightarrow>
                (case drain_deleting k q' of (q'', ds) \<Rightarrow> (q'', pair_objs e @ ds))
            | _ \<Rightarrow> (q, []))
      else (q, []))"

definition MDestroy_cleanup :: "('d, 's) miter \<Rightarrow> ('d, 's) miter outcome" where
  "MDestroy_cleanup m =
     (case mqueue m of
        None \<Rightarrow> Crash
      | Some q \<Rightarrow>
          (case drain_deleting (cbq_Size q) q of
             (q', ds) \<Rightarrow>
               Returns (m\<lparr>m_deleted := m_deleted m @ map (CellObj \<circ> fst) (m_free_cells m) @ ds
                                         @ map (CellObj \<circ> fst) (cells_of (m_out_data m)),
                          m_free_cells := [], mqueue := Some q', m_out_data := None\<rparr>)))"

text \<open>
  \<open>Destroy\<close> as a whole, called by the consumer with the loader's producer
  thread at \<open>lpc\<close>; the destructor is this call. \<open>Blocks\<close>: the call waits for
  a thread that does not return.
\<close>

definition MDestroy ::
    "('s \<Rightarrow> nat \<Rightarrow> 'd) \<Rightarrow> 's ppc \<Rightarrow> ('d, 's) miter \<Rightarrow> ('s ppc \<times> ('d, 's) miter) outcome" where
  "MDestroy f lpc m =
     (case MDestroy_enter m of
        (m1, Returns u) \<Rightarrow> Returns (lpc, m1)
      | (m1, Blocks) \<Rightarrow>
          (case MDestroy_join f 0 lpc m1 of
             Returns (lpc1, m2) \<Rightarrow>
               (case Destroy lpc1 (loader m2) of
                  None \<Rightarrow> Blocks
                | Some (lpc', l') \<Rightarrow>
                    (case MDestroy_cleanup (m2\<lparr>loader := l'\<rparr>) of
                       Returns m3 \<Rightarrow> Returns (lpc', m3)
                     | Abort \<Rightarrow> Abort | Crash \<Rightarrow> Crash | Blocks \<Rightarrow> Blocks))
           | Crash \<Rightarrow> Crash
           | Abort \<Rightarrow> Abort
           | Blocks \<Rightarrow> Blocks)
      | (m1, Crash) \<Rightarrow> Crash
      | (m1, Abort) \<Rightarrow> Abort)"

section \<open>Invariants of the multi-producer pipe\<close>

subsection \<open>Configuration, loader signal and the phases of a rewind\<close>

text \<open>
  \<open>BeforeFirst\<close> runs through its phases in program order; the consumer's
  control point tells how many workers are joined (\<open>joined\<close>), whether the
  first drain is over (\<open>after_drain\<close>) and which events have happened
  (\<open>trace_at\<close>). \<open>full_trace n\<close> is the complete sequence of events of one
  rewind of a pipe with \<open>n\<close> workers.

  \<^item> \<open>mcfg_inv\<close>: the configuration does not change, the vector has
    \<open>thread_num_\<close> slots, the queue exists and was not killed;
  \<^item> \<open>mloader_inv\<close>: the loader was not shut down, and its rewind signal is
    pending only while the consumer sleeps in \<open>loader_->BeforeFirst()\<close>;
  \<^item> \<open>mphase_inv\<close>: \<open>force_stopped_\<close> is set exactly during a rewind, the
    joined slots are the first \<open>joined\<close> ones, no thread has aborted, and the
    events so far are those of the phase reached.
\<close>

fun drain_ctx :: "ctx \<Rightarrow> bool" where
  "drain_ctx Drain1 = True"
| "drain_ctx Drain2 = True"
| "drain_ctx c = False"

fun in_rewind :: "mcpc \<Rightarrow> bool" where
  "in_rewind MC_Idle = False"
| "in_rewind (MC_Call c) = drain_ctx c"
| "in_rewind (MC_Adv c) = drain_ctx c"
| "in_rewind (MC_Pop c) = drain_ctx c"
| "in_rewind pc = True"

fun after_drain :: "mcpc \<Rightarrow> bool" where
  "after_drain (MC_Call c) = (c = Drain2)"
| "after_drain (MC_Adv c) = (c = Drain2)"
| "after_drain (MC_Pop c) = (c = Drain2)"
| "after_drain (MC_Join tid) = True"
| "after_drain MC_Reset = True"
| "after_drain MC_Rewind = True"
| "after_drain pc = False"

fun joined :: "nat \<Rightarrow> mcpc \<Rightarrow> nat" where
  "joined n (MC_Call c) = (if c = Drain2 then n else 0)"
| "joined n (MC_Adv c) = (if c = Drain2 then n else 0)"
| "joined n (MC_Pop c) = (if c = Drain2 then n else 0)"
| "joined n (MC_Join tid) = tid"
| "joined n MC_Reset = n"
| "joined n MC_Rewind = n"
| "joined n pc = 0"

fun out_empty :: "mcpc \<Rightarrow> bool" where
  "out_empty MC_Idle = False"
| "out_empty (MC_Call c) = (c = Drain2)"
| "out_empty (MC_Pop c) = (c \<noteq> Direct)"
| "out_empty pc = True"

definition drained_trace :: "nat \<Rightarrow> event list" where
  "drained_trace k = [EvForceStop, EvDrained] @ map EvJoined [0 ..< k]"

definition full_trace :: "nat \<Rightarrow> event list" where
  "full_trace n = drained_trace n @ [EvReset, EvLoaderRewind, EvCleared]
                  @ map EvLaunched [0 ..< n]"

fun trace_at :: "nat \<Rightarrow> mcpc \<Rightarrow> event list" where
  "trace_at n (MC_Call c) = (if c = Drain2 then drained_trace n else [EvForceStop])"
| "trace_at n (MC_Adv c) = (if c = Drain2 then drained_trace n else [EvForceStop])"
| "trace_at n (MC_Pop c) = (if c = Drain2 then drained_trace n else [EvForceStop])"
| "trace_at n (MC_Join tid) = drained_trace tid"
| "trace_at n MC_Reset = drained_trace n"
| "trace_at n MC_Rewind = drained_trace n @ [EvReset]"
| "trace_at n pc = []"

definition mcfg_inv :: "nat \<Rightarrow> nat \<Rightarrow> ('d, 's) miter \<Rightarrow> bool" where
  "mcfg_inv n qcap m \<longleftrightarrow>
     thread_num m = n \<and> queue_capacity m = qcap \<and> length (producer_threads m) = n \<and>
     (case mqueue m of Some q \<Rightarrow> \<not> cbq_killed q \<and> cbq_capacity q = qcap | None \<Rightarrow> False)"

definition mloader_inv :: "('d, 's) msys \<Rightarrow> bool" where
  "mloader_inv s \<longleftrightarrow>
     has_reset (source (loader (mpipe s))) \<and>
     producer_sig (loader (mpipe s)) \<noteq> kDestroy \<and>
     lthr s \<noteq> P_Exit \<and> lthr s \<noteq> P_Abort \<and>
     (producer_sig (loader (mpipe s)) = kBeforeFirst \<longrightarrow>
        mcthr s = MC_Rewind \<and> \<not> producer_sig_processed (loader (mpipe s))) \<and>
     (producer_sig_processed (loader (mpipe s)) \<longrightarrow> mcthr s = MC_Rewind) \<and>
     (lthr s = P_Push None \<longrightarrow> produce_end (loader (mpipe s)))"

definition mphase_inv :: "nat \<Rightarrow> ('d, 's) msys \<Rightarrow> bool" where
  "mphase_inv n s \<longleftrightarrow>
     mcthr s \<noteq> MC_Abort \<and> mcthr s \<noteq> MC_Pop Drain2 \<and>
     force_stopped (mpipe s) = in_rewind (mcthr s) \<and>
     (after_drain (mcthr s) \<longrightarrow> n \<le> null_cell_num (mpipe s)) \<and>
     joined n (mcthr s) \<le> n \<and>
     map (\<lambda>sl. sl = None) (producer_threads (mpipe s))
       = replicate (joined n (mcthr s)) True @ replicate (n - joined n (mcthr s)) False \<and>
     Some W_Abort \<notin> set (producer_threads (mpipe s)) \<and>
     (out_empty (mcthr s) \<longrightarrow> m_out_data (mpipe s) = None) \<and>
     (if in_rewind (mcthr s) then trace s = trace_at n (mcthr s)
      else trace s = [] \<or> trace s = full_trace n)"

lemma next_returns_simps [simp]:
  "mpipe (next_returns c None s) = mpipe s"
  "lthr (next_returns c r s) = lthr s"
  "loader (mpipe (next_returns c r s)) = loader (mpipe s)"
  by (cases c; cases r; simp)+

lemma MNext_void_recycle_eq:
  "MNext_void_recycle m = m\<lparr>m_free_cells := m_free_cells m @ cells_of (m_out_data m),
                              m_out_data := None\<rparr>"
  by (cases "m_out_data m") (simp_all add: MNext_void_recycle_def MRecycle_def)

lemma mcfg_inv_step:
  assumes "mcfg_inv n qcap (mpipe s)" and "mstep f a s = Some s'"
  shows "mcfg_inv n qcap (mpipe s')"
  using assms(2)
proof (cases rule: mstep_cases)
  case (Worker tid pc pc' m1)
  from Worker(3) show ?thesis
    by (cases rule: worker_cases) (use assms(1) Worker(4) in \<open>auto simp: mcfg_inv_def\<close>)
next
  case Resume
  from Resume(2) show ?thesis
  proof (cases rule: mresume_cases)
    case (Pop_item c q d src es)
    with assms(1) show ?thesis by (cases c) (auto simp: mcfg_inv_def)
  next
    case (Pop_last c q src es)
    with assms(1) show ?thesis by (cases c) (auto simp: mcfg_inv_def)
  qed (use assms(1) in \<open>auto simp: mcfg_inv_def MNext_void_recycle_eq rewind_finish_def\<close>)
qed (use assms(1) in \<open>auto simp: mcfg_inv_def MNext_void_recycle_eq MRecycle_def\<close>)

lemma next_returns_mcthr:
  "mcthr (next_returns c r s) =
     (case r of
        Some d \<Rightarrow> (if drain_ctx c then MC_Call c else MC_Idle)
      | None \<Rightarrow> (case c of Drain1 \<Rightarrow> MC_Join 0 | Drain2 \<Rightarrow> MC_Reset | _ \<Rightarrow> MC_Idle))"
  by (cases c; cases r; simp)

lemma mloader_inv_step:
  assumes "mloader_inv s" and "mstep f a s = Some s'"
  shows "mloader_inv s'"
  using assms(2)
proof (cases rule: mstep_cases)
  case (Loader pc l)
  from Loader(1) show ?thesis
    by (cases rule: pstep_cases) (use assms(1) Loader(2) in \<open>auto simp: mloader_inv_def\<close>)
next
  case (Worker tid pc pc' m1)
  from Worker(3) show ?thesis
    by (cases rule: worker_cases) (use assms(1) Worker(4) in \<open>auto simp: mloader_inv_def\<close>)
next
  case Resume
  from Resume(2) show ?thesis
  proof (cases rule: mresume_cases)
    case (Adv_finished c)
    with assms(1) show ?thesis
      by (auto simp: mloader_inv_def next_returns_mcthr split: ctx.splits)
  next
    case (Pop_killed c q)
    with assms(1) show ?thesis
      by (auto simp: mloader_inv_def next_returns_mcthr split: ctx.splits)
  next
    case (Pop_item c q d src es)
    with assms(1) show ?thesis
      by (cases src) (auto simp: mloader_inv_def next_returns_mcthr Recycle_def)
  next
    case (Pop_last c q src es)
    with assms(1) show ?thesis
      by (auto simp: mloader_inv_def next_returns_mcthr split: ctx.splits)
  next
    case Reset_unack
    with assms(1) show ?thesis by (auto simp: mloader_inv_def)
  qed (use assms(1) in \<open>auto simp: mloader_inv_def rewind_finish_def MNext_void_recycle_eq\<close>)
qed (use assms(1) in \<open>auto simp: mloader_inv_def next_returns_mcthr MNext_void_recycle_eq MRecycle_def\<close>)


lemma nones_update_Some:
  assumes "i < length xs" and "xs ! i = Some x"
  shows "map (\<lambda>sl. sl = None) (xs[i := Some y]) = map (\<lambda>sl. sl = None) xs"
proof -
  have "map (\<lambda>sl. sl = None) (xs[i := Some y]) = (map (\<lambda>sl. sl = None) xs)[i := False]"
    by (simp add: map_update)
  also have "\<dots> = map (\<lambda>sl. sl = None) xs"
    using assms by (simp add: list_update_same_conv)
  finally show ?thesis .
qed

lemma replicate_join:
  assumes "k < n"
  shows "(replicate k True @ replicate (n - k) False)[k := True]
           = replicate (Suc k) True @ replicate (n - Suc k) False"
proof -
  from assms obtain d where d: "n - k = Suc d" "n - Suc k = d"
    by (cases "n - k") auto
  then show ?thesis
    by (simp add: list_update_append replicate_append_same)
qed

lemma nones_join:
  assumes "map (\<lambda>sl. sl = None) xs = replicate k True @ replicate (n - k) False" and "k < n"
  shows "map (\<lambda>sl. sl = None) (xs[k := None])
           = replicate (Suc k) True @ replicate (n - Suc k) False"
proof -
  have "map (\<lambda>sl. sl = None) (xs[k := None]) = (map (\<lambda>sl. sl = None) xs)[k := True]"
    by (simp add: map_update)
  with assms replicate_join[OF assms(2)] show ?thesis by simp
qed

lemma not_Abort_update:
  "Some W_Abort \<notin> set xs \<Longrightarrow> pc \<noteq> W_Abort \<Longrightarrow> Some W_Abort \<notin> set (xs[i := Some pc])"
  using set_update_subset_insert[of xs i "Some pc"] by auto

lemma not_Abort_update_None:
  "Some W_Abort \<notin> set xs \<Longrightarrow> Some W_Abort \<notin> set (xs[i := None])"
  using set_update_subset_insert[of xs i None] by auto

lemma nones_slot_Some:
  assumes "map (\<lambda>sl. sl = None) xs = replicate k True @ replicate (n - k) False"
    and "i < length xs" and "xs ! i = Some pc"
  shows "k \<le> i"
proof (rule ccontr)
  assume "\<not> k \<le> i"
  then have "i < k" by simp
  with assms(1) have "(map (\<lambda>sl. sl = None) xs) ! i = True"
    by (simp add: nth_append)
  with assms(2,3) show False by simp
qed

lemma mphase_inv_Worker:
  assumes "mphase_inv n s" and "mloader_inv s" and "mcfg_inv n qcap (mpipe s)"
    and "tid < length (producer_threads (mpipe s))"
    and "producer_threads (mpipe s) ! tid = Some pc" and "worker f tid pc (mpipe s) = Some (pc', m1)"
    and "s' = s\<lparr>mpipe := m1\<lparr>producer_threads := (producer_threads m1)[tid := Some pc']\<rparr>\<rparr>"
  shows "mphase_inv n s'"
proof -
  from assms(1) have nones: "map (\<lambda>sl. sl = None) (producer_threads (mpipe s))
       = replicate (joined n (mcthr s)) True @ replicate (n - joined n (mcthr s)) False"
    by (simp add: mphase_inv_def)
  from nones_slot_Some[OF nones assms(4,5)] assms(3,4)
  have notall: "joined n (mcthr s) < n" by (simp add: mcfg_inv_def)
  with assms(2) have sig: "producer_sig (loader (mpipe s)) \<noteq> kBeforeFirst"
    by (auto simp: mloader_inv_def)
  from assms(3) have q: "mqueue (mpipe s) \<noteq> None"
    by (auto simp: mcfg_inv_def split: option.splits)
  note upd = nones_update_Some[OF assms(4,5)] not_Abort_update
  from assms(6) show ?thesis
    by (cases rule: worker_cases)
       (use assms(1,7) sig q upd in \<open>auto simp: mphase_inv_def\<close>)
qed

lemma drained_trace_Suc: "drained_trace (Suc k) = drained_trace k @ [EvJoined k]"
  by (simp add: drained_trace_def)

lemma drained_trace_0: "drained_trace 0 = [EvForceStop, EvDrained]"
  by (simp add: drained_trace_def)

lemma nones_slot_None:
  assumes "map (\<lambda>sl. sl = None) xs = replicate k True @ replicate (n - k) False"
    and "k < length xs" and "length xs = n"
  shows "xs ! k \<noteq> None"
proof -
  from assms have "(map (\<lambda>sl. sl = None) xs) ! k = False"
    by (simp add: nth_append)
  with assms(2) show ?thesis by simp
qed

lemma mphase_inv_Resume:
  assumes "mphase_inv n s" and "mloader_inv s" and "mcfg_inv n qcap (mpipe s)"
    and "mresume s = Some s'"
  shows "mphase_inv n s'"
proof -
  from assms(3) have cfg: "thread_num (mpipe s) = n" "length (producer_threads (mpipe s)) = n"
    "mqueue (mpipe s) \<noteq> None" "\<And>q. mqueue (mpipe s) = Some q \<Longrightarrow> \<not> cbq_killed q"
    by (auto simp: mcfg_inv_def split: option.splits)
  from assms(1) have nones: "map (\<lambda>sl. sl = None) (producer_threads (mpipe s))
       = replicate (joined n (mcthr s)) True @ replicate (n - joined n (mcthr s)) False"
    by (simp add: mphase_inv_def)
  from assms(4) show ?thesis
  proof (cases rule: mresume_cases)
    case (Loop_call c)
    with assms(1) show ?thesis
      by (cases c) (auto simp: mphase_inv_def MNext_void_recycle_eq)
  next
    case (Adv_finished c)
    with assms(1) cfg(1) show ?thesis
      by (cases c) (auto simp: mphase_inv_def MNext_finished_def drained_trace_0)
  next
    case (Adv_pop c)
    with assms(1) cfg(1) show ?thesis
      by (cases c) (auto simp: mphase_inv_def MNext_finished_def)
  next
    case (Pop_null c)
    with cfg(3) show ?thesis by simp
  next
    case (Pop_killed c q)
    with cfg(4) show ?thesis by simp
  next
    case (Pop_item c q d src es)
    with assms(1) show ?thesis
      by (cases c) (auto simp: mphase_inv_def)
  next
    case (Pop_sentinel c q src es)
    with assms(1) show ?thesis
      by (cases c) (auto simp: mphase_inv_def)
  next
    case (Pop_last c q src es)
    with assms(1) cfg(1) show ?thesis
      by (cases c) (auto simp: mphase_inv_def drained_trace_0)
  next
    case (Join_done tid)
    with assms(1) cfg(1) show ?thesis
      by (auto simp: mphase_inv_def)
  next
    case (Join_range tid)
    with cfg(1,2) show ?thesis by simp
  next
    case (Join_skip tid)
    with nones_slot_None[OF nones] cfg(2) show ?thesis by simp
  next
    case (Join tid)
    with assms(1) cfg(1) nones_join[of "producer_threads (mpipe s)" tid n] show ?thesis
      by (auto simp: mphase_inv_def drained_trace_Suc not_Abort_update_None)
  next
    case Reset_shutdown
    with assms(2) show ?thesis by (simp add: mloader_inv_def)
  next
    case Reset_unack
    with assms(1,2) show ?thesis by (auto simp: mloader_inv_def mphase_inv_def)
  next
    case Reset_sleep
    with assms(1) show ?thesis by (auto simp: mphase_inv_def)
  next
    case Rewind_done
    with assms(1) cfg(1) show ?thesis
      by (auto simp: mphase_inv_def rewind_finish_def full_trace_def)
  qed
qed

lemma mphase_inv_step:
  assumes "mphase_inv n s" and "mloader_inv s" and "mcfg_inv n qcap (mpipe s)"
    and "mstep f a s = Some s'"
  shows "mphase_inv n s'"
  using assms(4)
proof (cases rule: mstep_cases)
  case (Loader pc l)
  with assms(1) show ?thesis by (simp add: mphase_inv_def)
next
  case (Worker tid pc pc' m1)
  from mphase_inv_Worker[OF assms(1-3) this] show ?thesis .
next
  case Call_finished
  with assms(1) show ?thesis by (auto simp: mphase_inv_def)
next
  case Call_pop
  with assms(1) show ?thesis by (auto simp: mphase_inv_def)
next
  case (Recycle i)
  with assms(1) show ?thesis by (auto simp: mphase_inv_def MRecycle_def)
next
  case Advance
  with assms(1) show ?thesis by (auto simp: mphase_inv_def MNext_void_recycle_eq)
next
  case Rewind_call
  with assms(1) show ?thesis by (auto simp: mphase_inv_def)
next
  case Resume
  from mphase_inv_Resume[OF assms(1-3) Resume(2)] show ?thesis .
qed

subsection \<open>Sentinels\<close>

text \<open>
  A worker is done when it has pushed its pair of nulls and returned. Every
  sentinel pushed is either still in the queue or was counted in
  \<open>null_cell_num_\<close>; and when all workers are done, the last entry of a
  non-empty queue is a sentinel.
\<close>

fun slot_done :: "('d, 's) wpc option \<Rightarrow> bool" where
  "slot_done None = True"
| "slot_done (Some W_Exit) = True"
| "slot_done (Some pc) = False"

definition sentinel :: "'d cell option \<times> 's cell option \<Rightarrow> bool" where
  "sentinel e \<longleftrightarrow> fst e = None"

definition q_items :: "('d, 's) miter \<Rightarrow> ('d cell option \<times> 's cell option) list" where
  "q_items m = (case mqueue m of Some q \<Rightarrow> cbq_items q | None \<Rightarrow> [])"

definition mq_inv :: "('d, 's) msys \<Rightarrow> bool" where
  "mq_inv s \<longleftrightarrow>
     length (filter slot_done (producer_threads (mpipe s)))
       = length (filter sentinel (q_items (mpipe s))) + null_cell_num (mpipe s) \<and>
     ((\<forall>sl \<in> set (producer_threads (mpipe s)). slot_done sl) \<longrightarrow>
        q_items (mpipe s) = [] \<or> sentinel (last (q_items (mpipe s))))"

lemma count_update:
  "i < length xs \<Longrightarrow>
   length (filter P (xs[i := y])) + (if P (xs ! i) then 1 else 0)
     = length (filter P xs) + (if P y then 1 else 0)"
proof (induction xs arbitrary: i)
  case Nil
  then show ?case by simp
next
  case (Cons x xs)
  then show ?case by (cases i) auto
qed

lemma count_update_same:
  "i < length xs \<Longrightarrow> P (xs ! i) = P y \<Longrightarrow> length (filter P (xs[i := y])) = length (filter P xs)"
  using count_update[of i xs P y] by (simp split: if_splits)

lemma count_update_done:
  "i < length xs \<Longrightarrow> \<not> P (xs ! i) \<Longrightarrow> P y \<Longrightarrow>
   length (filter P (xs[i := y])) = Suc (length (filter P xs))"
  using count_update[of i xs P y] by simp

lemma slot_done_Some: "slot_done (Some pc) \<longleftrightarrow> pc = W_Exit"
  by (cases pc) simp_all

lemma all_done_update:
  assumes "i < length xs" and "\<not> slot_done y"
  shows "\<not> (\<forall>sl \<in> set (xs[i := y]). slot_done sl)"
  using assms set_update_memI[of i xs y] by auto

lemma mq_inv_Worker:
  assumes "mq_inv s" and "mcfg_inv n qcap (mpipe s)"
    and "tid < length (producer_threads (mpipe s))"
    and "producer_threads (mpipe s) ! tid = Some pc" and "worker f tid pc (mpipe s) = Some (pc', m1)"
    and "s' = s\<lparr>mpipe := m1\<lparr>producer_threads := (producer_threads m1)[tid := Some pc']\<rparr>\<rparr>"
  shows "mq_inv s'"
proof -
  from assms(5) have notexit: "pc \<noteq> W_Exit" by auto
  have same: "\<And>pc''. pc'' \<noteq> W_Exit \<Longrightarrow>
      length (filter slot_done ((producer_threads (mpipe s))[tid := Some pc'']))
        = length (filter slot_done (producer_threads (mpipe s)))"
    using assms(3,4) notexit by (intro count_update_same) (simp_all add: slot_done_Some)
  have more: "length (filter slot_done ((producer_threads (mpipe s))[tid := Some W_Exit]))
        = Suc (length (filter slot_done (producer_threads (mpipe s))))"
    using assms(3,4) notexit by (intro count_update_done) (simp_all add: slot_done_Some)
  have notall: "\<And>pc''. pc'' \<noteq> W_Exit \<Longrightarrow>
      \<not> (\<forall>sl \<in> set ((producer_threads (mpipe s))[tid := Some pc'']). slot_done sl)"
    using assms(3) by (intro all_done_update) (simp_all add: slot_done_Some)
  from assms(2) have q: "mqueue (mpipe s) \<noteq> None"
    "\<And>q. mqueue (mpipe s) = Some q \<Longrightarrow> \<not> cbq_killed q"
    by (auto simp: mcfg_inv_def split: option.splits)
  from assms(5) show ?thesis
    by (cases rule: worker_cases)
       (use assms(1,6) same more notall q in \<open>auto simp: mq_inv_def q_items_def sentinel_def\<close>)
qed


lemma all_done_count:
  "(\<forall>sl \<in> set xs. slot_done sl) \<longleftrightarrow> length (filter slot_done xs) = length xs"
proof
  assume "\<forall>sl \<in> set xs. slot_done sl"
  then have "filter slot_done xs = xs" by (simp add: filter_id_conv)
  then show "length (filter slot_done xs) = length xs" by simp
next
  assume eq: "length (filter slot_done xs) = length xs"
  show "\<forall>sl \<in> set xs. slot_done sl"
  proof (rule ccontr)
    assume "\<not> (\<forall>sl \<in> set xs. slot_done sl)"
    then obtain sl where sl: "sl \<in> set xs" "\<not> slot_done sl" by blast
    have "length (filter slot_done xs) < length xs"
      using sl by (rule length_filter_less[of sl xs slot_done])
    with eq show False by simp
  qed
qed

lemma drained_queue_empty:
  assumes "mq_inv s" and "mphase_inv n s" and "mcfg_inv n qcap (mpipe s)"
    and "n \<le> null_cell_num (mpipe s)"
  shows "q_items (mpipe s) = [] \<and> null_cell_num (mpipe s) = n \<and>
         (\<forall>sl \<in> set (producer_threads (mpipe s)). slot_done sl)"
proof -
  from assms(3) have len: "length (producer_threads (mpipe s)) = n"
    by (simp add: mcfg_inv_def)
  have "length (filter slot_done (producer_threads (mpipe s))) \<le> n"
    using length_filter_le[of slot_done "producer_threads (mpipe s)"] len by simp
  moreover from assms(1)
  have "length (filter slot_done (producer_threads (mpipe s)))
          = length (filter sentinel (q_items (mpipe s))) + null_cell_num (mpipe s)"
    by (simp add: mq_inv_def)
  ultimately have cnt: "length (filter slot_done (producer_threads (mpipe s))) = n"
    and "length (filter sentinel (q_items (mpipe s))) = 0" and null: "null_cell_num (mpipe s) = n"
    using assms(4) by linarith+
  then have nosent: "filter sentinel (q_items (mpipe s)) = []" by simp
  from cnt len have all: "\<forall>sl \<in> set (producer_threads (mpipe s)). slot_done sl"
    by (simp add: all_done_count)
  with assms(1) have "q_items (mpipe s) = [] \<or> sentinel (last (q_items (mpipe s)))"
    by (simp add: mq_inv_def)
  moreover have "q_items (mpipe s) \<noteq> [] \<Longrightarrow> \<not> sentinel (last (q_items (mpipe s)))"
  proof
    assume ne: "q_items (mpipe s) \<noteq> []" and "sentinel (last (q_items (mpipe s)))"
    then have "last (q_items (mpipe s)) \<in> set (filter sentinel (q_items (mpipe s)))"
      by simp
    with nosent show False by simp
  qed
  ultimately show ?thesis using null all by blast
qed

lemma next_returns_q [simp]:
  "producer_threads (mpipe (next_returns c r s)) = producer_threads (mpipe s)"
  "q_items (mpipe (next_returns c r s)) = q_items (mpipe s)"
  "null_cell_num (mpipe (next_returns c r s)) = null_cell_num (mpipe s)"
  by (cases c; cases r; simp add: q_items_def)+

lemma mq_inv_next_returns [simp]: "mq_inv (next_returns c r s) = mq_inv s"
  by (simp add: mq_inv_def)

lemma all_done_join:
  assumes "i < length xs" and "xs ! i = Some W_Exit"
  shows "(\<forall>sl \<in> set (xs[i := None]). slot_done sl) \<longleftrightarrow> (\<forall>sl \<in> set xs. slot_done sl)"
  using assms count_update_same[of i xs slot_done None]
  by (simp add: all_done_count)

lemma mq_inv_Resume:
  assumes "mq_inv s" and "mphase_inv n s" and "mloader_inv s" and "mcfg_inv n qcap (mpipe s)"
    and "mresume s = Some s'"
  shows "mq_inv s'"
  using assms(5)
proof (cases rule: mresume_cases)
  case (Pop_item c q d src es)
  have "mq_inv (s\<lparr>mpipe := (mpipe s)\<lparr>mqueue := Some (q\<lparr>cbq_items := es\<rparr>),
                    loader := (case src of Some sc \<Rightarrow> Recycle sc (loader (mpipe s))
                               | None \<Rightarrow> loader (mpipe s))\<rparr>\<rparr>)"
    using assms(1) Pop_item(2-4)
    by (auto simp: mq_inv_def q_items_def sentinel_def split: if_splits)
  then show ?thesis unfolding Pop_item(5) by simp
next
  case (Pop_sentinel c q src es)
  with assms(1) show ?thesis
    by (auto simp: mq_inv_def q_items_def sentinel_def split: if_splits)
next
  case (Pop_last c q src es)
  have "mq_inv (s\<lparr>mpipe := (mpipe s)\<lparr>mqueue := Some (q\<lparr>cbq_items := es\<rparr>),
                    null_cell_num := Suc (null_cell_num (mpipe s))\<rparr>\<rparr>)"
    using assms(1) Pop_last(2-4)
    by (auto simp: mq_inv_def q_items_def sentinel_def split: if_splits)
  then show ?thesis unfolding Pop_last(6) by simp
next
  case (Join tid)
  with assms(1) count_update_same[of tid "producer_threads (mpipe s)" slot_done None]
    all_done_join[of tid "producer_threads (mpipe s)"]
  show ?thesis
    by (simp add: mq_inv_def q_items_def)
next
  case Reset_shutdown
  with assms(3) show ?thesis by (simp add: mloader_inv_def)
next
  case Rewind_done
  with assms(2) have "n \<le> null_cell_num (mpipe s)" by (simp add: mphase_inv_def)
  from drained_queue_empty[OF assms(1,2,4) this] Rewind_done show ?thesis
    by (auto simp: mq_inv_def rewind_finish_def q_items_def)
qed (use assms(1) in \<open>simp_all add: mq_inv_def MNext_void_recycle_eq q_items_def\<close>)

lemma mq_inv_step:
  assumes "mq_inv s" and "mphase_inv n s" and "mloader_inv s" and "mcfg_inv n qcap (mpipe s)"
    and "mstep f a s = Some s'"
  shows "mq_inv s'"
  using assms(5)
proof (cases rule: mstep_cases)
  case (Worker tid pc pc' m1)
  from mq_inv_Worker[OF assms(1,4) this] show ?thesis .
next
  case Resume
  from mq_inv_Resume[OF assms(1-4) Resume(2)] show ?thesis .
qed (use assms(1) in \<open>simp_all add: mq_inv_def q_items_def MNext_void_recycle_eq MRecycle_def\<close>)

definition minv :: "nat \<Rightarrow> nat \<Rightarrow> ('d, 's) msys \<Rightarrow> bool" where
  "minv n qcap s \<longleftrightarrow>
     mcfg_inv n qcap (mpipe s) \<and> mloader_inv s \<and> mphase_inv n s \<and> mq_inv s"

lemma minv_mstart: "has_reset p \<Longrightarrow> minv n qcap (mstart lcap j1 j2 j3 p n qcap)"
  by (simp add: minv_def mcfg_inv_def mloader_inv_def mphase_inv_def mq_inv_def mstart_def
        MInit_def fresh_miter_def new_cbq_def q_items_def Init_closures_def ThreadedIter_def)

lemma minv_step:
  assumes "minv n qcap s" and "mstep f a s = Some s'"
  shows "minv n qcap s'"
proof -
  from assms(1) have i: "mcfg_inv n qcap (mpipe s)" "mloader_inv s" "mphase_inv n s" "mq_inv s"
    by (simp_all add: minv_def)
  from mcfg_inv_step[OF i(1) assms(2)] mloader_inv_step[OF i(2) assms(2)]
    mphase_inv_step[OF i(3,2,1) assms(2)] mq_inv_step[OF i(4,3,2,1) assms(2)]
  show ?thesis by (simp add: minv_def)
qed

lemma minv_run: "minv n qcap s \<Longrightarrow> mrun f sch s = Some s' \<Longrightarrow> minv n qcap s'"
proof (induction sch arbitrary: s)
  case Nil
  then show ?case by simp
next
  case (Cons a sch)
  from Cons.prems(2) obtain s1 where s1: "mstep f a s = Some s1" and r: "mrun f sch s1 = Some s'"
    by (auto split: option.splits)
  from Cons.IH[OF minv_step[OF Cons.prems(1) s1] r] show ?case .
qed

subsection \<open>Where the source items are\<close>

text \<open>
  Between \<open>Init\<close> and the first rewind every source item is in exactly one
  place: not yet delivered by the loader (\<open>upstream\<close>), in the hands of a
  worker (\<open>in_workers\<close>), transformed and waiting in the shared queue
  (\<open>in_queue\<close>), or returned to the consumer by a \<open>Next\<close> that reported true
  (\<open>trues\<close>). A worker leaves its loop only after the loader reported its
  end, so once every worker is done nothing is left upstream.
\<close>

fun holds :: "('d, 's) wpc option \<Rightarrow> nat" where
  "holds (Some (W_Got (Some src))) = 1"
| "holds (Some (W_Work src)) = 1"
| "holds (Some (W_Push c src)) = 1"
| "holds sl = 0"

fun ended :: "('d, 's) wpc option \<Rightarrow> bool" where
  "ended (Some (W_Got None)) = True"
| "ended (Some W_Sentinel) = True"
| "ended (Some W_Exit) = True"
| "ended sl = False"

definition up_count :: "'s ppc \<Rightarrow> 's titer \<Rightarrow> nat" where
  "up_count pc l =
     length (queue l) + length (flight pc (produce_end l))
     + length (if pc = P_Start then items (source l) else rest (source l))"

definition upstream :: "('d, 's) msys \<Rightarrow> nat" where
  "upstream s = up_count (lthr s) (loader (mpipe s))"

definition in_workers :: "('d, 's) msys \<Rightarrow> nat" where
  "in_workers s = sum_list (map holds (producer_threads (mpipe s)))"

definition in_queue :: "('d, 's) msys \<Rightarrow> nat" where
  "in_queue s = length (filter (\<lambda>e. \<not> sentinel e) (q_items (mpipe s)))"

definition trues :: "('d, 's) msys \<Rightarrow> nat" where
  "trues s = length (filter (\<lambda>r. r \<noteq> None) (mouts s))"

definition exhausted :: "'s titer \<Rightarrow> bool" where
  "exhausted l \<longleftrightarrow> produce_end l \<and> queue l = []"

definition end_inv :: "'s ppc \<Rightarrow> 's titer \<Rightarrow> bool" where
  "end_inv pc l \<longleftrightarrow> (produce_end l \<longrightarrow> rest (source l) = [] \<and> pc \<noteq> P_Start)"

definition mcount_inv :: "nat \<Rightarrow> 's list \<Rightarrow> ('d, 's) msys \<Rightarrow> bool" where
  "mcount_inv n xs s \<longleftrightarrow>
     items (source (loader (mpipe s))) = xs \<and> \<not> in_rewind (mcthr s) \<and>
     end_inv (lthr s) (loader (mpipe s)) \<and>
     upstream s + in_workers s + in_queue s + trues s = length xs \<and>
     (list_ex ended (producer_threads (mpipe s)) \<longrightarrow> exhausted (loader (mpipe s))) \<and>
     (None \<in> set (mouts s) \<longrightarrow> n \<le> null_cell_num (mpipe s)) \<and>
     ((\<exists>c. mcthr s = MC_Pop c) \<longrightarrow> null_cell_num (mpipe s) < n) \<and>
     (mcthr s = MC_Idle \<and> mouts s \<noteq> [] \<and> last (mouts s) \<noteq> None \<longrightarrow>
        null_cell_num (mpipe s) < n)"

lemma mcount_inv_mstart: "mcount_inv n (items p) (mstart lcap j1 j2 j3 p n qcap)"
  by (simp add: mcount_inv_def mstart_def MInit_def fresh_miter_def new_cbq_def q_items_def
        Init_closures_def ThreadedIter_def upstream_def in_workers_def in_queue_def trues_def
        end_inv_def list_ex_iff up_count_def)

lemma loader_step_effect:
  assumes "pstep pc l = Some (pc', l')" and "producer_sig l = kProduce"
    and "end_inv pc l" and "pc = P_Push None \<longrightarrow> produce_end l"
    and "has_reset (source l)"
  shows "items (source l') = items (source l)"
    and "end_inv pc' l'"
    and "exhausted l \<longrightarrow> exhausted l'"
    and "up_count pc' l' = up_count pc l"
  using assms(1)
  by (cases rule: pstep_cases;
      use assms(2-5) in
        \<open>auto simp: end_inv_def exhausted_def rewound_def up_count_def\<close>)+

lemma mcount_inv_Loader:
  assumes "mcount_inv n xs s" and "mloader_inv s"
    and "pstep (lthr s) (loader (mpipe s)) = Some (pc, l)"
    and "s' = s\<lparr>mpipe := (mpipe s)\<lparr>loader := l\<rparr>, lthr := pc\<rparr>"
  shows "mcount_inv n xs s'"
proof -
  from assms(1,2) have sig: "producer_sig (loader (mpipe s)) = kProduce"
    by (cases "producer_sig (loader (mpipe s))") (auto simp: mcount_inv_def mloader_inv_def)
  from assms(1) have e: "end_inv (lthr s) (loader (mpipe s))" by (simp add: mcount_inv_def)
  from assms(2) have p: "lthr s = P_Push None \<longrightarrow> produce_end (loader (mpipe s))"
    and hr: "has_reset (source (loader (mpipe s)))"
    by (simp_all add: mloader_inv_def)
  note eff = loader_step_effect[OF assms(3) sig e p hr]
  from eff(4) have "upstream s' = upstream s"
    unfolding assms(4) by (simp add: upstream_def)
  with assms(1) eff(1-3) show ?thesis
    unfolding assms(4)
    by (simp add: mcount_inv_def in_workers_def in_queue_def trues_def q_items_def)
qed

lemma sum_list_update_holds:
  "i < length xs \<Longrightarrow>
   sum_list (map h (xs[i := y])) + h (xs ! i) = sum_list (map h xs) + (h y :: nat)"
proof (induction xs arbitrary: i)
  case Nil
  then show ?case by simp
next
  case (Cons x xs)
  then show ?case by (cases i) auto
qed

lemma list_ex_update:
  "list_ex P (xs[i := y]) \<Longrightarrow> P y \<or> list_ex P xs"
  using set_update_subset_insert[of xs i y] by (auto simp: list_ex_iff)

lemma list_ex_nth: "i < length xs \<Longrightarrow> P (xs ! i) \<Longrightarrow> list_ex P xs"
  by (auto simp: list_ex_iff)

lemma worker_effect:
  assumes "worker f tid pc m = Some (pc', m1)" and "\<not> force_stopped m"
    and "mqueue m = Some q" and "\<not> cbq_killed q" and "producer_sig (loader m) = kProduce"
  shows "source (loader m1) = source (loader m)"
    and "produce_end (loader m1) = produce_end (loader m)"
    and "\<And>lpc. up_count lpc (loader m1) + holds (Some pc')
           + length (filter (\<lambda>e. \<not> sentinel e) (q_items m1))
         = up_count lpc (loader m) + holds (Some pc)
           + length (filter (\<lambda>e. \<not> sentinel e) (q_items m))"
    and "(ended (Some pc) \<longrightarrow> exhausted (loader m)) \<longrightarrow> (ended (Some pc') \<longrightarrow> exhausted (loader m1))"
    and "exhausted (loader m) \<longrightarrow> exhausted (loader m1)"
    and "null_cell_num m1 = null_cell_num m" and "producer_threads m1 = producer_threads m"
  using assms(1)
  by (cases rule: worker_cases;
      use assms(2-5) in \<open>auto simp: up_count_def q_items_def sentinel_def exhausted_def\<close>)+

lemma mcount_inv_Worker:
  assumes "mcount_inv n xs s" and "minv n qcap s"
    and "tid < length (producer_threads (mpipe s))"
    and "producer_threads (mpipe s) ! tid = Some pc" and "worker f tid pc (mpipe s) = Some (pc', m1)"
    and "s' = s\<lparr>mpipe := m1\<lparr>producer_threads := (producer_threads m1)[tid := Some pc']\<rparr>\<rparr>"
  shows "mcount_inv n xs s'"
proof -
  from assms(1,2) have fs: "\<not> force_stopped (mpipe s)"
    by (simp add: mcount_inv_def minv_def mphase_inv_def)
  from assms(2) obtain q where q: "mqueue (mpipe s) = Some q" "\<not> cbq_killed q"
    by (auto simp: minv_def mcfg_inv_def split: option.splits)
  from assms(1,2) have sig: "producer_sig (loader (mpipe s)) = kProduce"
    by (cases "producer_sig (loader (mpipe s))")
       (auto simp: mcount_inv_def minv_def mloader_inv_def)
  note eff = worker_effect[OF assms(5) fs q sig]
  let ?sl = "producer_threads (mpipe s)"
  from sum_list_update_holds[OF assms(3), of holds "Some pc'"] assms(4)
  have sum: "sum_list (map holds (?sl[tid := Some pc'])) + holds (Some pc)
               = sum_list (map holds ?sl) + holds (Some pc')"
    by simp
  have cnt: "upstream s' + in_workers s' + in_queue s' + trues s'
               = upstream s + in_workers s + in_queue s + trues s"
    using eff(3)[of "lthr s"] eff(7) sum unfolding assms(6)
    by (simp add: upstream_def in_workers_def in_queue_def trues_def q_items_def)
  have ex: "list_ex ended (?sl[tid := Some pc']) \<longrightarrow> exhausted (loader m1)"
  proof
    assume "list_ex ended (?sl[tid := Some pc'])"
    then have "ended (Some pc') \<or> list_ex ended ?sl" by (rule list_ex_update)
    then show "exhausted (loader m1)"
    proof
      assume e: "ended (Some pc')"
      have "ended (Some pc) \<longrightarrow> exhausted (loader (mpipe s))"
        using assms(1,3,4) list_ex_nth[of tid ?sl ended] by (auto simp: mcount_inv_def)
      with eff(4) e show ?thesis by simp
    next
      assume "list_ex ended ?sl"
      with assms(1) eff(5) show ?thesis by (simp add: mcount_inv_def)
    qed
  qed
  from assms(1) eff(1,2,6,7) cnt ex show ?thesis
    unfolding assms(6)
    by (simp add: mcount_inv_def end_inv_def)
qed

lemma next_returns_user:
  assumes "\<not> drain_ctx c"
  shows "mcthr (next_returns c r s) = MC_Idle \<and>
         mouts (next_returns c r s) = mouts s @ [map_option snd r] \<and>
         upstream (next_returns c r s) = upstream s \<and>
         in_workers (next_returns c r s) = in_workers s \<and>
         in_queue (next_returns c r s) = in_queue s \<and>
         trues (next_returns c r s) = trues s + (if r = None then 0 else 1)"
  using assms
  by (cases c; cases r)
     (simp_all add: upstream_def in_workers_def in_queue_def q_items_def trues_def)

lemma mcount_inv_user_return:
  assumes "\<not> drain_ctx c"
    and "items (source (loader (mpipe s1))) = xs"
    and "end_inv (lthr s1) (loader (mpipe s1))"
    and "list_ex ended (producer_threads (mpipe s1)) \<longrightarrow> exhausted (loader (mpipe s1))"
    and "None \<in> set (mouts s1) \<longrightarrow> n \<le> null_cell_num (mpipe s1)"
    and "r = None \<longrightarrow> n \<le> null_cell_num (mpipe s1)"
    and "r \<noteq> None \<longrightarrow> null_cell_num (mpipe s1) < n"
    and "upstream s1 + in_workers s1 + in_queue s1 + trues s1 + (if r = None then 0 else 1)
           = length xs"
  shows "mcount_inv n xs (next_returns c r s1)"
proof -
  note nr = next_returns_user[OF assms(1), of r s1]
  from assms(2-8) nr show ?thesis
    by (cases r) (simp_all add: mcount_inv_def)
qed

lemma mcount_inv_Resume:
  assumes "mcount_inv n xs s" and "minv n qcap s" and "mresume s = Some s'"
  shows "mcount_inv n xs s'"
proof -
  from assms(2) have cfg: "thread_num (mpipe s) = n" "mqueue (mpipe s) \<noteq> None"
    "\<And>q. mqueue (mpipe s) = Some q \<Longrightarrow> \<not> cbq_killed q"
    by (auto simp: minv_def mcfg_inv_def split: option.splits)
  from assms(1) have nr: "\<not> in_rewind (mcthr s)"
    and it: "items (source (loader (mpipe s))) = xs"
    and ei: "end_inv (lthr s) (loader (mpipe s))"
    and ex: "list_ex ended (producer_threads (mpipe s)) \<longrightarrow> exhausted (loader (mpipe s))"
    and no: "None \<in> set (mouts s) \<longrightarrow> n \<le> null_cell_num (mpipe s)"
    and cnt: "upstream s + in_workers s + in_queue s + trues s = length xs"
    and pop: "\<And>c. mcthr s = MC_Pop c \<Longrightarrow> null_cell_num (mpipe s) < n"
    by (simp_all add: mcount_inv_def)
  from assms(3) show ?thesis
  proof (cases rule: mresume_cases)
    case (Loop_call c)
    have "upstream s' = upstream s" "in_workers s' = in_workers s" "in_queue s' = in_queue s"
      "trues s' = trues s"
      unfolding Loop_call(2)
      by (simp_all add: upstream_def in_workers_def in_queue_def trues_def q_items_def
            MNext_void_recycle_eq)
    with assms(1) Loop_call nr show ?thesis
      by (simp add: mcount_inv_def MNext_void_recycle_eq)
  next
    case (Adv_finished c)
    from Adv_finished(1) nr have c: "\<not> drain_ctx c" by simp
    from Adv_finished(2) cfg(1) have "n \<le> null_cell_num (mpipe s)"
      by (simp add: MNext_finished_def)
    with mcount_inv_user_return[OF c it ei ex no, of None] cnt show ?thesis
      unfolding Adv_finished(3) by simp
  next
    case (Adv_pop c)
    from Adv_pop(2) cfg(1) have "null_cell_num (mpipe s) < n"
      by (simp add: MNext_finished_def)
    with assms(1) Adv_pop(1,3) nr show ?thesis
      by (simp add: mcount_inv_def upstream_def in_workers_def in_queue_def trues_def)
  next
    case (Pop_null c)
    with cfg(2) show ?thesis by simp
  next
    case (Pop_killed c q)
    with cfg(3) show ?thesis by simp
  next
    case (Pop_item c q d src es)
    let ?s1 = "s\<lparr>mpipe := (mpipe s)\<lparr>mqueue := Some (q\<lparr>cbq_items := es\<rparr>),
                    loader := (case src of Some sc \<Rightarrow> Recycle sc (loader (mpipe s))
                               | None \<Rightarrow> loader (mpipe s))\<rparr>\<rparr>"
    from Pop_item nr have c: "\<not> drain_ctx c" by simp
    have up: "upstream ?s1 = upstream s"
      by (cases src) (simp_all add: upstream_def up_count_def Recycle_def)
    have iq: "Suc (in_queue ?s1) = in_queue s"
      using Pop_item(2,4) by (simp add: in_queue_def q_items_def sentinel_def)
    have rest: "in_workers ?s1 = in_workers s" "trues ?s1 = trues s" "mouts ?s1 = mouts s"
      "null_cell_num (mpipe ?s1) = null_cell_num (mpipe s)"
      "producer_threads (mpipe ?s1) = producer_threads (mpipe s)"
      "lthr ?s1 = lthr s"
      by (simp_all add: in_workers_def trues_def)
    have ld: "items (source (loader (mpipe ?s1))) = items (source (loader (mpipe s)))"
      "end_inv (lthr s) (loader (mpipe ?s1)) = end_inv (lthr s) (loader (mpipe s))"
      "exhausted (loader (mpipe ?s1)) = exhausted (loader (mpipe s))"
      by (cases src; simp add: Recycle_def end_inv_def exhausted_def)+
    have "mcount_inv n xs (next_returns c (Some d) ?s1)"
      using it ei ex no pop[OF Pop_item(1)] cnt up iq rest ld
      by (intro mcount_inv_user_return[OF c]) simp_all
    then show ?thesis unfolding Pop_item(5) .
  next
    case (Pop_sentinel c q src es)
    have iq: "in_queue s' = in_queue s" "upstream s' = upstream s"
      "in_workers s' = in_workers s" "trues s' = trues s"
      using Pop_sentinel(2,4,6)
      by (simp_all add: in_queue_def q_items_def sentinel_def upstream_def in_workers_def
            trues_def)
    from pop[OF Pop_sentinel(1)] Pop_sentinel(5) cfg(1)
    have "Suc (null_cell_num (mpipe s)) < n" by simp
    with assms(1) Pop_sentinel(1,6) nr iq show ?thesis
      by (simp add: mcount_inv_def)
  next
    case (Pop_last c q src es)
    let ?s1 = "s\<lparr>mpipe := (mpipe s)\<lparr>mqueue := Some (q\<lparr>cbq_items := es\<rparr>),
                    null_cell_num := Suc (null_cell_num (mpipe s))\<rparr>\<rparr>"
    from Pop_last nr have c: "\<not> drain_ctx c" by simp
    have iq: "in_queue ?s1 = in_queue s" "upstream ?s1 = upstream s"
      "in_workers ?s1 = in_workers s" "trues ?s1 = trues s"
      using Pop_last(2,4)
      by (simp_all add: in_queue_def q_items_def sentinel_def upstream_def in_workers_def
            trues_def)
    have "mcount_inv n xs (next_returns c None ?s1)"
      using it ei ex cnt iq Pop_last(5) cfg(1)
      by (intro mcount_inv_user_return[OF c]) simp_all
    then show ?thesis unfolding Pop_last(6) .
  qed (use nr in simp_all)
qed

lemma mcount_inv_step:
  assumes "mcount_inv n xs s" and "minv n qcap s" and "mstep f a s = Some s'"
    and "a \<noteq> M_CallBeforeFirst"
  shows "mcount_inv n xs s'"
proof -
  from assms(2) have cfg: "thread_num (mpipe s) = n" and li: "mloader_inv s"
    by (auto simp: minv_def mcfg_inv_def)
  from assms(1) have nr: "\<not> in_rewind (mcthr s)"
    and it: "items (source (loader (mpipe s))) = xs"
    and ei: "end_inv (lthr s) (loader (mpipe s))"
    and ex: "list_ex ended (producer_threads (mpipe s)) \<longrightarrow> exhausted (loader (mpipe s))"
    and no: "None \<in> set (mouts s) \<longrightarrow> n \<le> null_cell_num (mpipe s)"
    and cnt: "upstream s + in_workers s + in_queue s + trues s = length xs"
    by (simp_all add: mcount_inv_def)
  from assms(3) show ?thesis
  proof (cases rule: mstep_cases)
    case (Loader pc l)
    from mcount_inv_Loader[OF assms(1) li this] show ?thesis .
  next
    case (Worker tid pc pc' m1)
    from mcount_inv_Worker[OF assms(1,2) this] show ?thesis .
  next
    case Call_finished
    from Call_finished(3) cfg have "n \<le> null_cell_num (mpipe s)"
      by (simp add: MNext_finished_def)
    with mcount_inv_user_return[OF _ it ei ex no, of Direct None] cnt show ?thesis
      unfolding Call_finished(4) by simp
  next
    case Call_pop
    from Call_pop(3) cfg have "null_cell_num (mpipe s) < n"
      by (simp add: MNext_finished_def)
    with assms(1) Call_pop(2,4) show ?thesis
      by (simp add: mcount_inv_def upstream_def in_workers_def in_queue_def trues_def)
  next
    case (Recycle i)
    have "upstream s' = upstream s" "in_workers s' = in_workers s" "in_queue s' = in_queue s"
      "trues s' = trues s"
      unfolding Recycle(3)
      by (simp_all add: upstream_def in_workers_def in_queue_def trues_def q_items_def
            MRecycle_def)
    with assms(1) Recycle show ?thesis
      by (simp add: mcount_inv_def MRecycle_def)
  next
    case Advance
    have "upstream s' = upstream s" "in_workers s' = in_workers s" "in_queue s' = in_queue s"
      "trues s' = trues s"
      unfolding Advance(2)
      by (simp_all add: upstream_def in_workers_def in_queue_def trues_def q_items_def
            MNext_void_recycle_eq)
    with assms(1) Advance show ?thesis
      by (simp add: mcount_inv_def MNext_void_recycle_eq)
  next
    case Rewind_call
    with assms(4) show ?thesis by simp
  next
    case Resume
    from mcount_inv_Resume[OF assms(1,2) Resume(2)] show ?thesis .
  qed
qed

lemma mcount_inv_run:
  "mcount_inv n xs s \<Longrightarrow> minv n qcap s \<Longrightarrow> mrun f sch s = Some s' \<Longrightarrow>
   M_CallBeforeFirst \<notin> set sch \<Longrightarrow> mcount_inv n xs s'"
proof (induction sch arbitrary: s)
  case Nil
  then show ?case by simp
next
  case (Cons a sch)
  from Cons.prems(3) obtain s1 where s1: "mstep f a s = Some s1" and r: "mrun f sch s1 = Some s'"
    by (auto split: option.splits)
  from Cons.prems(4) have na: "a \<noteq> M_CallBeforeFirst" "M_CallBeforeFirst \<notin> set sch" by auto
  from Cons.IH[OF mcount_inv_step[OF Cons.prems(1,2) s1 na(1)] minv_step[OF Cons.prems(2) s1] r na(2)]
  show ?case .
qed

lemma all_ended:
  assumes "\<forall>sl \<in> set xs. slot_done sl" and "None \<notin> set xs"
  shows "sum_list (map holds xs) = 0 \<and> (xs \<noteq> [] \<longrightarrow> list_ex ended xs)"
proof -
  have *: "\<forall>sl \<in> set xs. holds sl = 0 \<and> ended sl"
  proof
    fix sl assume "sl \<in> set xs"
    with assms have "slot_done sl" "sl \<noteq> None" by (auto simp: in_set_conv_nth)
    then have "sl = Some W_Exit" by (cases sl) (simp_all add: slot_done_Some)
    then show "holds sl = 0 \<and> ended sl" by simp
  qed
  then have "sum_list (map holds xs) = 0" by (simp add: sum_list_eq_0_iff)
  moreover from * have "xs \<noteq> [] \<longrightarrow> list_ex ended xs"
    by (cases xs) (auto simp: list_ex_iff)
  ultimately show ?thesis by simp
qed

lemma finished_all_delivered:
  assumes "mcount_inv n xs s" and "minv n qcap s" and "n \<le> null_cell_num (mpipe s)" and "0 < n"
  shows "trues s = length xs"
proof -
  from assms(2) have inv: "mq_inv s" "mphase_inv n s" "mcfg_inv n qcap (mpipe s)"
    by (simp_all add: minv_def)
  from drained_queue_empty[OF inv assms(3)]
  have q: "q_items (mpipe s) = []" and all: "\<forall>sl \<in> set (producer_threads (mpipe s)). slot_done sl"
    by simp_all
  from assms(1) have nr: "\<not> in_rewind (mcthr s)" by (simp add: mcount_inv_def)
  then have "joined n (mcthr s) = 0"
    by (cases "mcthr s") (auto split: if_splits)
  with inv(2) have "map (\<lambda>sl. sl = None) (producer_threads (mpipe s)) = replicate n False"
    by (simp add: mphase_inv_def)
  then have "set (map (\<lambda>sl. sl = None) (producer_threads (mpipe s))) \<subseteq> {False}"
    by (simp only: set_replicate_conv_if split: if_splits) auto
  then have nn: "None \<notin> set (producer_threads (mpipe s))" by auto
  from inv(3) assms(4) have ne: "producer_threads (mpipe s) \<noteq> []"
    by (auto simp: mcfg_inv_def)
  from all_ended[OF all nn] ne have w: "in_workers s = 0"
    and e: "list_ex ended (producer_threads (mpipe s))"
    by (simp_all add: in_workers_def)
  from assms(1) e have "exhausted (loader (mpipe s))" "end_inv (lthr s) (loader (mpipe s))"
    by (simp_all add: mcount_inv_def)
  then have "upstream s = 0"
    by (simp add: upstream_def up_count_def exhausted_def end_inv_def)
  with assms(1) w q show ?thesis
    by (simp add: mcount_inv_def in_queue_def)
qed

subsection \<open>The state at the end of a rewind\<close>



subsection \<open>Invariants for progress\<close>

text \<open>
  What progress needs beyond the invariants above: the loader keeps its
  capacity; a \<open>Next\<close> is at the pop only while the counter is below the
  number of workers; while the consumer sleeps in \<open>loader_->BeforeFirst()\<close>
  the rewind signal is pending until the loader acknowledges; and the reset
  closure \<open>before_first_\<close> has run once for each call of \<open>BeforeFirst\<close>, the
  current call excepted until it has got there (\<open>before_reset\<close>). Once the
  loader has acknowledged, every source item is upstream again
  (\<open>mrewound_inv\<close>). A step of the loader's thread or of a worker
  (\<open>background\<close>) leaves what the consumer sees as it is (\<open>quiet\<close>).
\<close>

lemma mrun_append:
  "mrun f (sch1 @ sch2) s = (case mrun f sch1 s of None \<Rightarrow> None | Some s1 \<Rightarrow> mrun f sch2 s1)"
  by (induction sch1 arbitrary: s) (auto split: option.splits)

definition lready :: "'a titer \<Rightarrow> bool" where
  "lready l \<longleftrightarrow> queue l \<noteq> [] \<or> produce_end l"

fun before_reset :: "mcpc \<Rightarrow> bool" where
  "before_reset (MC_Call c) = drain_ctx c"
| "before_reset (MC_Adv c) = drain_ctx c"
| "before_reset (MC_Pop c) = drain_ctx c"
| "before_reset (MC_Join tid) = True"
| "before_reset MC_Reset = True"
| "before_reset pc = False"

definition mlive_inv :: "nat \<Rightarrow> ('d, 's) msys \<Rightarrow> bool" where
  "mlive_inv lcap s \<longleftrightarrow>
     max_capacity (loader (mpipe s)) = lcap \<and>
     ((\<exists>c. mcthr s = MC_Pop c) \<longrightarrow> null_cell_num (mpipe s) < thread_num (mpipe s)) \<and>
     (mcthr s = MC_Rewind \<and> \<not> producer_sig_processed (loader (mpipe s)) \<longrightarrow>
        producer_sig (loader (mpipe s)) = kBeforeFirst) \<and>
     resets (mpipe s) + (if before_reset (mcthr s) then 1 else 0) = rewinds s"


fun background :: "mact \<Rightarrow> bool" where
  "background M_Loader = True"
| "background (M_Worker tid) = True"
| "background a = False"

definition quiet :: "('d, 's) msys \<Rightarrow> ('d, 's) msys \<Rightarrow> bool" where
  "quiet s s' \<longleftrightarrow>
     mcthr s' = mcthr s \<and> mouts s' = mouts s \<and> mheld s' = mheld s \<and> trace s' = trace s \<and>
     null_cell_num (mpipe s') = null_cell_num (mpipe s) \<and>
     thread_num (mpipe s') = thread_num (mpipe s) \<and>
     force_stopped (mpipe s') = force_stopped (mpipe s) \<and>
     m_out_data (mpipe s') = m_out_data (mpipe s)"

lemma mlive_inv_mstart: "mlive_inv lcap (mstart lcap j1 j2 j3 p n qcap)"
  by (simp add: mlive_inv_def mstart_def MInit_def fresh_miter_def Init_closures_def
        ThreadedIter_def)

lemma mlive_inv_step:
  assumes "mlive_inv lcap s" and "minv n qcap s" and "mstep f a s = Some s'"
  shows "mlive_inv lcap s'"
proof -
  from minv_step[OF assms(2,3)] have na: "mcthr s' \<noteq> MC_Abort"
    by (simp add: minv_def mphase_inv_def)
  from assms(3) show ?thesis
  proof (cases rule: mstep_cases)
    case (Loader pc l)
    from Loader(1) show ?thesis
      by (cases rule: pstep_cases) (use assms(1) Loader(2) in \<open>auto simp: mlive_inv_def\<close>)
  next
    case (Worker tid pc pc' m1)
    from Worker(3) show ?thesis
      by (cases rule: worker_cases) (use assms(1) Worker(4) in \<open>auto simp: mlive_inv_def\<close>)
  next
    case Resume
    from Resume(2) show ?thesis
    proof (cases rule: mresume_cases)
      case (Adv_finished c)
      with assms(1) show ?thesis by (cases c) (auto simp: mlive_inv_def)
    next
      case (Adv_pop c)
      with assms(1) show ?thesis by (auto simp: mlive_inv_def MNext_finished_def)
    next
      case (Pop_killed c q)
      with assms(1) show ?thesis by (cases c) (auto simp: mlive_inv_def)
    next
      case (Pop_item c q d src es)
      with assms(1) show ?thesis
        by (cases c; cases src) (auto simp: mlive_inv_def Recycle_def)
    next
      case (Pop_last c q src es)
      with assms(1) show ?thesis by (cases c) (auto simp: mlive_inv_def)
    qed (use assms(1) na in \<open>auto simp: mlive_inv_def MNext_void_recycle_eq rewind_finish_def\<close>)
  qed (use assms(1) in \<open>auto simp: mlive_inv_def MNext_void_recycle_eq MRecycle_def
          MNext_finished_def\<close>)
qed

lemma mlive_inv_run:
  "mlive_inv lcap s \<Longrightarrow> minv n qcap s \<Longrightarrow> mrun f sch s = Some s' \<Longrightarrow> mlive_inv lcap s'"
proof (induction sch arbitrary: s)
  case Nil
  then show ?case by simp
next
  case (Cons a sch)
  from Cons.prems(3) obtain s1 where s1: "mstep f a s = Some s1" and r: "mrun f sch s1 = Some s'"
    by (auto split: option.splits)
  from Cons.IH[OF mlive_inv_step[OF Cons.prems(1,2) s1] minv_step[OF Cons.prems(2) s1] r]
  show ?case .
qed




lemma quiet_refl [simp]: "quiet s s"
  by (simp add: quiet_def)

lemma quiet_trans: "quiet s s1 \<Longrightarrow> quiet s1 s2 \<Longrightarrow> quiet s s2"
  by (simp add: quiet_def)

lemma quiet_step:
  assumes "mstep f a s = Some s'" and "background a"
  shows "quiet s s'"
proof (cases a)
  case M_Loader
  with assms(1) show ?thesis by (auto simp: quiet_def split: option.splits)
next
  case (M_Worker tid)
  with assms(1) obtain m' where w: "wstep f tid (mpipe s) = Some m'" and s': "s' = s\<lparr>mpipe := m'\<rparr>"
    by (auto split: option.splits)
  from w obtain pc pc' m1 where "worker f tid pc (mpipe s) = Some (pc', m1)"
    and m': "m' = m1\<lparr>producer_threads := (producer_threads m1)[tid := Some pc']\<rparr>"
    by (rule wstep_elim)
  then show ?thesis
    by (cases rule: worker_cases) (use s' in \<open>auto simp: quiet_def\<close>)
qed (use assms(2) in simp_all)

lemma quiet_run:
  "mrun f sch s = Some s' \<Longrightarrow> list_all background sch \<Longrightarrow> quiet s s'"
proof (induction sch arbitrary: s)
  case Nil
  then show ?case by simp
next
  case (Cons a sch)
  from Cons.prems(1) obtain s1 where s1: "mstep f a s = Some s1" and r: "mrun f sch s1 = Some s'"
    by (auto split: option.splits)
  from Cons.prems(2) have b: "background a" "list_all background sch" by simp_all
  from quiet_trans[OF quiet_step[OF s1 b(1)] Cons.IH[OF r b(2)]] show ?case .
qed

subsection \<open>Progress of a pull\<close>

text \<open>
  With both capacities positive: the loader's thread reaches a state in which
  \<open>loader_->Next\<close> returns (\<open>loader_ready\<close>); a worker that has not returned
  reaches its next push into the empty queue (\<open>worker_feeds\<close>); so a \<open>Next\<close>
  that sleeps at the pop gets an entry (\<open>pop_fed\<close>) and, after at most as many
  sentinels as there are workers, returns (\<open>pop_returns\<close>). Repeating the
  call, the consumer reaches the end of the stream (\<open>can_finish\<close>). The
  schedules consist of steps of the loader's thread, of the workers and of
  the consumer inside its call (\<open>internal\<close>).
\<close>

lemma pstep_closer:
  assumes "producer_sig l = kProduce" and "0 < max_capacity l" and "\<not> lready l"
    and "pc \<noteq> P_Exit" and "pc \<noteq> P_Abort" and "pc \<noteq> P_Push None"
  shows "\<exists>pc' l'. pstep pc l = Some (pc', l') \<and>
           (lready l' \<or> pull_distance pc' < pull_distance pc)"
proof (cases pc)
  case P_Start
  then show ?thesis by (cases "has_reset (source l)") simp_all
next
  case P_Loop
  with assms(1-3) show ?thesis
    by (cases "free_cells l")
       (simp_all add: producer_wait_pred_def producer_locked_def Let_def lready_def)
next
  case P_Wait
  with assms(1-3) show ?thesis
    by (cases "free_cells l")
       (simp_all add: producer_wait_pred_def producer_locked_def Let_def lready_def)
next
  case (P_Next c)
  then show ?thesis
    by (cases "rest (source l)"; cases c)
       (simp_all add: producer_Next_def Let_def lready_def)
next
  case (P_Push c)
  with assms(3,6) show ?thesis
    by (cases c) (simp_all add: lready_def)
qed (use assms in simp_all)

lemma loader_ready:
  assumes "minv n qcap s" and "mlive_inv lcap s" and "0 < lcap" and "mcthr s \<noteq> MC_Rewind"
    and "pull_distance (lthr s) \<le> k"
  shows "\<exists>j s'. mrun f (replicate j M_Loader) s = Some s' \<and> lready (loader (mpipe s')) \<and>
           producer_threads (mpipe s') = producer_threads (mpipe s) \<and>
           mqueue (mpipe s') = mqueue (mpipe s)"
  using assms
proof (induction k arbitrary: s)
  case 0
  then have "lthr s = P_Exit \<or> lthr s = P_Abort" by (cases "lthr s") simp_all
  with 0(1) show ?case by (simp add: minv_def mloader_inv_def)
next
  case (Suc k)
  show ?case
  proof (cases "lready (loader (mpipe s))")
    case True
    then show ?thesis by (intro exI[of _ 0] exI[of _ s]) simp
  next
    case False
    from Suc.prems(1) have li: "mloader_inv s" by (simp add: minv_def)
    with Suc.prems(4) have sig: "producer_sig (loader (mpipe s)) = kProduce"
      by (cases "producer_sig (loader (mpipe s))") (auto simp: mloader_inv_def)
    from Suc.prems(2,3) have cap: "0 < max_capacity (loader (mpipe s))"
      by (simp add: mlive_inv_def)
    from li False have pc: "lthr s \<noteq> P_Exit" "lthr s \<noteq> P_Abort" "lthr s \<noteq> P_Push None"
      by (auto simp: mloader_inv_def lready_def)
    from pstep_closer[OF sig cap False pc] obtain pc' l'
      where st: "pstep (lthr s) (loader (mpipe s)) = Some (pc', l')"
        and cl: "lready l' \<or> pull_distance pc' < pull_distance (lthr s)"
      by blast
    define s1 where "s1 = s\<lparr>mpipe := (mpipe s)\<lparr>loader := l'\<rparr>, lthr := pc'\<rparr>"
    from st have s1: "mstep f M_Loader s = Some s1" by (simp add: s1_def)
    note inv1 = minv_step[OF Suc.prems(1) s1] mlive_inv_step[OF Suc.prems(2,1) s1]
    have same: "mcthr s1 = mcthr s" "producer_threads (mpipe s1) = producer_threads (mpipe s)"
      "mqueue (mpipe s1) = mqueue (mpipe s)" "lthr s1 = pc'" "loader (mpipe s1) = l'"
      by (simp_all add: s1_def)
    from cl show ?thesis
    proof
      assume "lready l'"
      with s1 same show ?thesis
        by (intro exI[of _ 1] exI[of _ s1]) simp
    next
      assume "pull_distance pc' < pull_distance (lthr s)"
      with Suc.prems(5) same have "pull_distance (lthr s1) \<le> k" by simp
      from Suc.IH[OF inv1 Suc.prems(3) _ this] Suc.prems(4) same
      obtain j s' where "mrun f (replicate j M_Loader) s1 = Some s'"
        "lready (loader (mpipe s'))"
        "producer_threads (mpipe s') = producer_threads (mpipe s)"
        "mqueue (mpipe s') = mqueue (mpipe s)"
        by auto
      with s1 show ?thesis
        by (intro exI[of _ "Suc j"] exI[of _ s']) simp
    qed
  qed
qed

fun wdist :: "('d, 's) wpc \<Rightarrow> nat" where
  "wdist W_Loop = 5"
| "wdist W_Pull = 4"
| "wdist (W_Got r) = 3"
| "wdist (W_Work src) = 2"
| "wdist (W_Push c src) = 1"
| "wdist W_Sentinel = 1"
| "wdist W_Exit = 0"
| "wdist W_Abort = 0"

lemma worker_enabled:
  assumes "mqueue m = Some q" and "\<not> cbq_killed q" and "cbq_items q = []"
    and "0 < cbq_capacity q" and "pc \<noteq> W_Exit" and "pc \<noteq> W_Abort"
    and "pc = W_Pull \<longrightarrow> lready (loader m)"
  shows "worker f tid pc m \<noteq> None"
proof (cases pc)
  case W_Loop
  then show ?thesis
    by (cases "loader m" rule: Next_enter_cases) simp_all
next
  case W_Pull
  with assms(7) show ?thesis
    by (cases "loader m" rule: Next_wait_cases) (simp_all add: lready_def)
next
  case (W_Got r)
  then show ?thesis by (cases r) simp_all
next
  case (W_Work src)
  then show ?thesis by (cases "m_free_cells m") simp_all
next
  case (W_Push c src)
  with assms(1-4) show ?thesis by (simp add: cbq_Push_def)
next
  case W_Sentinel
  with assms(1-4) show ?thesis by (simp add: cbq_Push_def)
qed (use assms in simp_all)

lemma worker_closer:
  assumes "worker f tid pc m = Some (pc', m1)" and "mqueue m = Some q" and "\<not> cbq_killed q"
    and "cbq_items q = []"
  shows "q_items m1 \<noteq> [] \<or> (q_items m1 = [] \<and> wdist pc' < wdist pc \<and> pc' \<noteq> W_Exit)"
    and "length (producer_threads m1) = length (producer_threads m)"
  using assms(1)
  by (cases rule: worker_cases; use assms(2-4) in \<open>auto simp: q_items_def\<close>)+

lemma worker_feeds:
  assumes "minv n qcap s" and "mlive_inv lcap s" and "0 < lcap" and "0 < qcap"
    and "mcthr s \<noteq> MC_Rewind" and "tid < length (producer_threads (mpipe s))"
    and "producer_threads (mpipe s) ! tid = Some pc" and "pc \<noteq> W_Exit"
    and "q_items (mpipe s) = []" and "wdist pc \<le> k"
  shows "\<exists>sch s'. mrun f sch s = Some s' \<and> list_all background sch \<and>
           q_items (mpipe s') \<noteq> []"
  using assms
proof (induction k arbitrary: s pc)
  case 0
  from 0(1) have "Some W_Abort \<notin> set (producer_threads (mpipe s))"
    by (simp add: minv_def mphase_inv_def)
  with 0(6,7) have "pc \<noteq> W_Abort" by (metis nth_mem)
  with 0(8,10) show ?case by (cases pc) simp_all
next
  case (Suc k)
  have "pull_distance (lthr s) \<le> 4" by (cases "lthr s") simp_all
  from loader_ready[OF Suc.prems(1,2,3,5) this, of f]
  obtain j s0 where r0: "mrun f (replicate j M_Loader) s = Some s0"
    and rd: "lready (loader (mpipe s0))"
    and th0: "producer_threads (mpipe s0) = producer_threads (mpipe s)"
    and q0: "mqueue (mpipe s0) = mqueue (mpipe s)"
    by blast
  have b0: "list_all background (replicate j M_Loader)" by (simp add: list_all_iff)
  note inv0 = minv_run[OF Suc.prems(1) r0] mlive_inv_run[OF Suc.prems(2,1) r0]
  from quiet_run[OF r0 b0] have c0: "mcthr s0 = mcthr s" by (simp add: quiet_def)
  from inv0(1) Suc.prems(4) obtain q where q: "mqueue (mpipe s0) = Some q" "\<not> cbq_killed q"
    "0 < cbq_capacity q"
    by (auto simp: minv_def mcfg_inv_def split: option.splits)
  from q0 q(1) have "mqueue (mpipe s) = Some q" by simp
  with Suc.prems(9) have qe: "cbq_items q = []" by (simp add: q_items_def)
  from inv0(1) have "Some W_Abort \<notin> set (producer_threads (mpipe s0))"
    by (simp add: minv_def mphase_inv_def)
  with Suc.prems(6,7) th0 have na: "pc \<noteq> W_Abort" by (metis nth_mem)
  from worker_enabled[OF q(1,2) qe q(3) Suc.prems(8) na, of f tid] rd
  obtain pc' m1 where w: "worker f tid pc (mpipe s0) = Some (pc', m1)" by auto
  define s1 where
    "s1 = s0\<lparr>mpipe := m1\<lparr>producer_threads := (producer_threads m1)[tid := Some pc']\<rparr>\<rparr>"
  from w Suc.prems(6,7) th0 have st: "mstep f (M_Worker tid) s0 = Some s1"
    by (simp add: wstep_def s1_def)
  note cl = worker_closer[OF w q(1,2) qe]
  have q1: "q_items (mpipe s1) = q_items m1" by (simp add: s1_def q_items_def)
  from cl(2) Suc.prems(6) th0
  have t1: "tid < length (producer_threads (mpipe s1))"
    "producer_threads (mpipe s1) ! tid = Some pc'"
    by (simp_all add: s1_def)
  let ?sch = "replicate j M_Loader @ [M_Worker tid]"
  from r0 st have r1: "mrun f ?sch s = Some s1" by (simp add: mrun_append)
  have b1: "list_all background ?sch" by (simp add: list_all_iff)
  show ?case
  proof (cases "q_items m1 = []")
    case False
    with r1 b1 q1 show ?thesis by (intro exI[of _ ?sch] exI[of _ s1]) simp
  next
    case True
    with cl(1) have d: "wdist pc' < wdist pc" "pc' \<noteq> W_Exit" by simp_all
    from d(1) Suc.prems(10) have dk: "wdist pc' \<le> k" by simp
    from quiet_run[OF r1 b1] Suc.prems(5) have c1: "mcthr s1 \<noteq> MC_Rewind"
      by (simp add: quiet_def)
    from True q1 have qe1: "q_items (mpipe s1) = []" by simp
    from Suc.IH[OF minv_run[OF Suc.prems(1) r1] mlive_inv_run[OF Suc.prems(2,1) r1]
        Suc.prems(3,4) c1 t1 d(2) qe1 dk]
    obtain sch' s' where r': "mrun f sch' s1 = Some s'" and b': "list_all background sch'"
      and q': "q_items (mpipe s') \<noteq> []"
      by blast
    have "mrun f (?sch @ sch') s = Some s'"
      by (subst mrun_append) (simp only: r1 option.case r')
    moreover from b1 b' have "list_all background (?sch @ sch')" by simp
    ultimately show ?thesis using q' by blast
  qed
qed

lemma pop_fed:
  assumes "minv n qcap s" and "mlive_inv lcap s" and "0 < lcap" and "0 < qcap"
    and "mcthr s = MC_Pop c"
  shows "\<exists>sch s'. mrun f sch s = Some s' \<and> list_all background sch \<and>
           q_items (mpipe s') \<noteq> []"
proof (cases "q_items (mpipe s) = []")
  case False
  then show ?thesis by (intro exI[of _ "[]"] exI[of _ s]) simp
next
  case True
  from assms(1) have cfg: "mcfg_inv n qcap (mpipe s)" and mq: "mq_inv s"
    by (simp_all add: minv_def)
  from cfg have len: "length (producer_threads (mpipe s)) = thread_num (mpipe s)"
    by (simp add: mcfg_inv_def)
  from assms(2,5) have "null_cell_num (mpipe s) < thread_num (mpipe s)"
    by (simp add: mlive_inv_def)
  with mq True len
  have "length (filter slot_done (producer_threads (mpipe s)))
          \<noteq> length (producer_threads (mpipe s))"
    by (simp add: mq_inv_def)
  then have "\<not> (\<forall>sl \<in> set (producer_threads (mpipe s)). slot_done sl)"
    by (simp add: all_done_count)
  then obtain tid where tid: "tid < length (producer_threads (mpipe s))"
    "\<not> slot_done (producer_threads (mpipe s) ! tid)"
    by (auto simp: in_set_conv_nth)
  then obtain pc where pc: "producer_threads (mpipe s) ! tid = Some pc" "pc \<noteq> W_Exit"
    by (cases "producer_threads (mpipe s) ! tid") (auto simp: slot_done_Some)
  have "wdist pc \<le> 5" by (cases pc) simp_all
  from assms(5) have "mcthr s \<noteq> MC_Rewind" by simp
  from worker_feeds[OF assms(1-4) this tid(1) pc True \<open>wdist pc \<le> 5\<close>] show ?thesis .
qed

fun internal :: "mact \<Rightarrow> bool" where
  "internal M_Loader = True"
| "internal (M_Worker tid) = True"
| "internal M_Resume = True"
| "internal a = False"

lemma background_internal: "list_all background sch \<Longrightarrow> list_all internal sch"
  by (induction sch) (auto elim: background.elims)

lemma pop_returns:
  assumes "minv n qcap s" and "mlive_inv lcap s" and "0 < lcap" and "0 < qcap"
    and "mcthr s = MC_Pop c" and "\<not> drain_ctx c"
    and "thread_num (mpipe s) - null_cell_num (mpipe s) \<le> k"
  shows "\<exists>sch s'. mrun f sch s = Some s' \<and> list_all internal sch \<and> mcthr s' = MC_Idle \<and>
           length (mouts s') = Suc (length (mouts s))"
  using assms
proof (induction k arbitrary: s)
  case 0
  then show ?case by (simp add: mlive_inv_def)
next
  case (Suc k)
  from pop_fed[OF Suc.prems(1-5), of f] obtain sch0 s0
    where r0: "mrun f sch0 s = Some s0" and b0: "list_all background sch0"
      and ne: "q_items (mpipe s0) \<noteq> []"
    by blast
  note inv0 = minv_run[OF Suc.prems(1) r0] mlive_inv_run[OF Suc.prems(2,1) r0]
  from quiet_run[OF r0 b0] Suc.prems(5)
  have c0: "mcthr s0 = MC_Pop c" and o0: "mouts s0 = mouts s"
    and n0: "null_cell_num (mpipe s0) = null_cell_num (mpipe s)"
    and t0: "thread_num (mpipe s0) = thread_num (mpipe s)"
    by (simp_all add: quiet_def)
  from inv0(1) have nk: "case mqueue (mpipe s0) of Some q \<Rightarrow> \<not> cbq_killed q | None \<Rightarrow> False"
    by (auto simp: minv_def mcfg_inv_def split: option.splits)
  from b0 have i0: "list_all internal sch0" by (rule background_internal)
  show ?case
  proof (cases "mpipe s0" rule: MNext_pop_cases)
    case Null
    with nk show ?thesis by simp
  next
    case (Killed q)
    with nk show ?thesis by simp
  next
    case (Empty q)
    with ne show ?thesis by (simp add: q_items_def)
  next
    case (Item q d src es)
    define s1 where "s1 = next_returns c (Some d) (s0\<lparr>mpipe := fst (MNext_pop (mpipe s0))\<rparr>)"
    from c0 Item(4) have "mresume s0 = Some s1" by (simp add: s1_def)
    with r0 have "mrun f (sch0 @ [M_Resume]) s = Some s1" by (simp add: mrun_append)
    moreover from i0 have "list_all internal (sch0 @ [M_Resume])" by simp
    moreover from next_returns_user[OF Suc.prems(6), of "Some d"
        "s0\<lparr>mpipe := fst (MNext_pop (mpipe s0))\<rparr>"] o0
    have "mcthr s1 = MC_Idle" "length (mouts s1) = Suc (length (mouts s))"
      unfolding s1_def by simp_all
    ultimately show ?thesis by blast
  next
    case (Last_sentinel q src es)
    define s1 where "s1 = next_returns c None (s0\<lparr>mpipe := fst (MNext_pop (mpipe s0))\<rparr>)"
    from c0 Last_sentinel(5) have "mresume s0 = Some s1" by (simp add: s1_def)
    with r0 have "mrun f (sch0 @ [M_Resume]) s = Some s1" by (simp add: mrun_append)
    moreover from i0 have "list_all internal (sch0 @ [M_Resume])" by simp
    moreover from next_returns_user[OF Suc.prems(6), of None
        "s0\<lparr>mpipe := fst (MNext_pop (mpipe s0))\<rparr>"] o0
    have "mcthr s1 = MC_Idle" "length (mouts s1) = Suc (length (mouts s))"
      unfolding s1_def by simp_all
    ultimately show ?thesis by blast
  next
    case (Sentinel q src es)
    define s1 where "s1 = s0\<lparr>mpipe := fst (MNext_pop (mpipe s0))\<rparr>"
    from c0 Sentinel(5) have st: "mresume s0 = Some s1" by (simp add: s1_def)
    with r0 have r1: "mrun f (sch0 @ [M_Resume]) s = Some s1" by (simp add: mrun_append)
    from i0 have i1: "list_all internal (sch0 @ [M_Resume])" by simp
    from Sentinel(5) c0 o0 n0 t0
    have s1: "mcthr s1 = MC_Pop c" "mouts s1 = mouts s"
      "null_cell_num (mpipe s1) = Suc (null_cell_num (mpipe s))"
      "thread_num (mpipe s1) = thread_num (mpipe s)"
      by (simp_all add: s1_def)
    with Suc.prems(7) have "thread_num (mpipe s1) - null_cell_num (mpipe s1) \<le> k" by simp
    from Suc.IH[OF minv_run[OF Suc.prems(1) r1] mlive_inv_run[OF Suc.prems(2,1) r1]
        Suc.prems(3,4) s1(1) Suc.prems(6) this]
    obtain sch' s' where r': "mrun f sch' s1 = Some s'" and i': "list_all internal sch'"
      and e: "mcthr s' = MC_Idle" "length (mouts s') = Suc (length (mouts s))"
      using s1(2) by auto
    have "mrun f ((sch0 @ [M_Resume]) @ sch') s = Some s'"
      by (subst mrun_append) (simp only: r1 option.case r')
    moreover from i1 i' have "list_all internal ((sch0 @ [M_Resume]) @ sch')" by simp
    ultimately show ?thesis using e by blast
  qed
qed

lemma internal_no_rewind: "list_all internal sch \<Longrightarrow> M_CallBeforeFirst \<notin> set sch"
  by (induction sch) auto

lemma adv_returns:
  assumes "minv n qcap s" and "mlive_inv lcap s" and "0 < lcap" and "0 < qcap"
    and "mcthr s = MC_Adv c" and "\<not> drain_ctx c"
  shows "\<exists>sch s'. mrun f sch s = Some s' \<and> list_all internal sch \<and> mcthr s' = MC_Idle \<and>
           length (mouts s') = Suc (length (mouts s))"
proof (cases "MNext_finished (mpipe s)")
  case True
  with assms(5) have "mrun f [M_Resume] s = Some (next_returns c None s)" by simp
  moreover from next_returns_user[OF assms(6), of None s]
  have "mcthr (next_returns c None s) = MC_Idle"
    "length (mouts (next_returns c None s)) = Suc (length (mouts s))"
    by simp_all
  ultimately show ?thesis
    by (intro exI[of _ "[M_Resume]"] exI[of _ "next_returns c None s"]) simp
next
  case False
  define s1 where "s1 = s\<lparr>mcthr := MC_Pop c\<rparr>"
  from False assms(5) have st: "mstep f M_Resume s = Some s1" by (simp add: s1_def)
  have c1: "mcthr s1 = MC_Pop c" and o1: "mouts s1 = mouts s" by (simp_all add: s1_def)
  from pop_returns[OF minv_step[OF assms(1) st] mlive_inv_step[OF assms(2,1) st] assms(3,4) c1
      assms(6) order_refl, of f]
  obtain sch s' where "mrun f sch s1 = Some s'" "list_all internal sch" "mcthr s' = MC_Idle"
    "length (mouts s') = Suc (length (mouts s))"
    using o1 by auto
  with st show ?thesis
    by (intro exI[of _ "M_Resume # sch"] exI[of _ s']) simp
qed

lemma call_returns:
  assumes "minv n qcap s" and "mlive_inv lcap s" and "0 < lcap" and "0 < qcap"
    and "\<not> in_rewind (mcthr s)" and "mcthr s \<noteq> MC_Idle"
  shows "\<exists>sch s'. mrun f sch s = Some s' \<and> list_all internal sch \<and> mcthr s' = MC_Idle \<and>
           length (mouts s') = Suc (length (mouts s))"
proof (cases "mcthr s")
  case (MC_Call c)
  with assms(5) have d: "\<not> drain_ctx c" by simp
  define s1 where "s1 = s\<lparr>mpipe := MNext_void_recycle (mpipe s), mcthr := MC_Adv c\<rparr>"
  from MC_Call have st: "mstep f M_Resume s = Some s1" by (simp add: s1_def)
  have c1: "mcthr s1 = MC_Adv c" and o1: "mouts s1 = mouts s" by (simp_all add: s1_def)
  from adv_returns[OF minv_step[OF assms(1) st] mlive_inv_step[OF assms(2,1) st] assms(3,4) c1 d,
      of f]
  obtain sch s' where "mrun f sch s1 = Some s'" "list_all internal sch" "mcthr s' = MC_Idle"
    "length (mouts s') = Suc (length (mouts s))"
    using o1 by auto
  with st show ?thesis
    by (intro exI[of _ "M_Resume # sch"] exI[of _ s']) simp
next
  case (MC_Adv c)
  with assms(5) have "\<not> drain_ctx c" by simp
  from adv_returns[OF assms(1-4) MC_Adv this] show ?thesis .
next
  case (MC_Pop c)
  with assms(5) have "\<not> drain_ctx c" by simp
  from pop_returns[OF assms(1-4) MC_Pop this order_refl] show ?thesis .
qed (use assms(5,6) in simp_all)

lemma trues_no_false:
  assumes "None \<notin> set (mouts s)"
  shows "trues s = length (mouts s)"
proof -
  have "\<And>x. x \<in> set (mouts s) \<Longrightarrow> x \<noteq> None"
    using assms by metis
  then have "filter (\<lambda>r. r \<noteq> None) (mouts s) = mouts s"
    by (intro filter_True ballI)
  then show ?thesis by (simp only: trues_def)
qed

lemma can_finish_idle:
  assumes "minv n qcap s" and "mlive_inv lcap s" and "mcount_inv n xs s"
    and "0 < lcap" and "0 < qcap" and "mcthr s = MC_Idle" and "length xs - trues s \<le> k"
  shows "\<exists>sch s'. mrun f sch s = Some s' \<and> M_CallBeforeFirst \<notin> set sch \<and>
           None \<in> set (mouts s')"
  using assms
proof (induction k arbitrary: s)
  case 0
  show ?case
  proof (cases "None \<in> set (mouts s)")
    case True
    then show ?thesis by (intro exI[of _ "[]"] exI[of _ s]) simp
  next
    case False
    from 0(3) have "trues s \<le> length xs" by (simp add: mcount_inv_def)
    with 0(7) have full: "trues s = length xs" by simp
    show ?thesis
    proof (cases "MNext_finished (mpipe s)")
      case True
      with 0(6) have "mrun f [M_CallNext] s = Some (next_returns Direct None s)" by simp
      then show ?thesis
        by (intro exI[of _ "[M_CallNext]"] exI[of _ "next_returns Direct None s"]) simp
    next
      case nf: False
      define s1 where "s1 = s\<lparr>mcthr := MC_Pop Direct\<rparr>"
      from nf 0(6) have st: "mstep f M_CallNext s = Some s1" by (simp add: s1_def)
      have c1: "mcthr s1 = MC_Pop Direct" and o1: "mouts s1 = mouts s"
        by (simp_all add: s1_def)
      from pop_returns[OF minv_step[OF 0(1) st] mlive_inv_step[OF 0(2,1) st] 0(4,5) c1 _
          order_refl, of f]
      obtain sch s' where r: "mrun f sch s1 = Some s'" and i: "list_all internal sch"
        and l: "length (mouts s') = Suc (length (mouts s))"
        using o1 by auto
      from st r have r': "mrun f (M_CallNext # sch) s = Some s'" by simp
      from internal_no_rewind[OF i] have nb: "M_CallBeforeFirst \<notin> set (M_CallNext # sch)"
        by simp
      from mcount_inv_run[OF 0(3,1) r' nb] have "trues s' \<le> length xs"
        by (simp add: mcount_inv_def)
      moreover from False have "trues s = length (mouts s)"
        by (rule trues_no_false)
      ultimately have "None \<in> set (mouts s')"
        using l full trues_no_false[of s'] by auto
      with r' nb show ?thesis by blast
    qed
  qed
next
  case (Suc k)
  show ?case
  proof (cases "None \<in> set (mouts s)")
    case True
    then show ?thesis by (intro exI[of _ "[]"] exI[of _ s]) simp
  next
    case False
    show ?thesis
    proof (cases "MNext_finished (mpipe s)")
      case True
      with Suc.prems(6) have "mrun f [M_CallNext] s = Some (next_returns Direct None s)"
        by simp
      then show ?thesis
        by (intro exI[of _ "[M_CallNext]"] exI[of _ "next_returns Direct None s"]) simp
    next
      case nf: False
      define s1 where "s1 = s\<lparr>mcthr := MC_Pop Direct\<rparr>"
      from nf Suc.prems(6) have st: "mstep f M_CallNext s = Some s1" by (simp add: s1_def)
      have c1: "mcthr s1 = MC_Pop Direct" and o1: "mouts s1 = mouts s"
        by (simp_all add: s1_def)
      from pop_returns[OF minv_step[OF Suc.prems(1) st] mlive_inv_step[OF Suc.prems(2,1) st]
          Suc.prems(4,5) c1 _ order_refl, of f]
      obtain sch s' where r: "mrun f sch s1 = Some s'" and i: "list_all internal sch"
        and c': "mcthr s' = MC_Idle"
        and l: "length (mouts s') = Suc (length (mouts s))"
        using o1 by auto
      from st r have r': "mrun f (M_CallNext # sch) s = Some s'" by simp
      from internal_no_rewind[OF i] have nb: "M_CallBeforeFirst \<notin> set (M_CallNext # sch)"
        by simp
      note inv' = minv_run[OF Suc.prems(1) r'] mlive_inv_run[OF Suc.prems(2,1) r']
        mcount_inv_run[OF Suc.prems(3,1) r' nb]
      show ?thesis
      proof (cases "None \<in> set (mouts s')")
        case True
        with r' nb show ?thesis by blast
      next
        case nn: False
        from False have "trues s = length (mouts s)"
          by (rule trues_no_false)
        moreover from nn have "trues s' = length (mouts s')"
          by (rule trues_no_false)
        ultimately have "length xs - trues s' \<le> k" using l Suc.prems(7) by simp
        from Suc.IH[OF inv' Suc.prems(4,5) c' this]
        obtain sch2 s2 where r2: "mrun f sch2 s' = Some s2"
          and nb2: "M_CallBeforeFirst \<notin> set sch2" and e: "None \<in> set (mouts s2)"
          by blast
        have "mrun f ((M_CallNext # sch) @ sch2) s = Some s2"
          by (subst mrun_append) (simp only: r' option.case r2)
        moreover from nb nb2 have "M_CallBeforeFirst \<notin> set ((M_CallNext # sch) @ sch2)"
          by simp
        ultimately show ?thesis using e by blast
      qed
    qed
  qed
qed

lemma can_finish:
  assumes "minv n qcap s" and "mlive_inv lcap s" and "mcount_inv n xs s"
    and "0 < lcap" and "0 < qcap"
  shows "\<exists>sch s'. mrun f sch s = Some s' \<and> M_CallBeforeFirst \<notin> set sch \<and>
           None \<in> set (mouts s')"
proof (cases "mcthr s = MC_Idle")
  case True
  from can_finish_idle[OF assms True order_refl] show ?thesis .
next
  case False
  from assms(3) have "\<not> in_rewind (mcthr s)" by (simp add: mcount_inv_def)
  from call_returns[OF assms(1,2,4,5) this False, of f]
  obtain sch s1 where r: "mrun f sch s = Some s1" and i: "list_all internal sch"
    and c: "mcthr s1 = MC_Idle"
    by blast
  note nb = internal_no_rewind[OF i]
  from can_finish_idle[OF minv_run[OF assms(1) r] mlive_inv_run[OF assms(2,1) r]
      mcount_inv_run[OF assms(3,1) r nb] assms(4,5) c order_refl, of f]
  obtain sch2 s2 where r2: "mrun f sch2 s1 = Some s2"
    and nb2: "M_CallBeforeFirst \<notin> set sch2" and e: "None \<in> set (mouts s2)"
    by blast
  have "mrun f (sch @ sch2) s = Some s2"
    by (subst mrun_append) (simp only: r option.case r2)
  moreover from nb nb2 have "M_CallBeforeFirst \<notin> set (sch @ sch2)" by simp
  ultimately show ?thesis using e by blast
qed

subsection \<open>Progress of a rewind\<close>





fun late :: "('d, 's) wpc option \<Rightarrow> nat" where
  "late (Some (W_Work src)) = 1"
| "late (Some (W_Push c src)) = 1"
| "late sl = 0"

definition pending_out :: "('d, 's) msys \<Rightarrow> nat" where
  "pending_out s = in_queue s + sum_list (map late (producer_threads (mpipe s)))"





lemma pending_out_next_returns [simp]:
  "pending_out (next_returns c r s) = pending_out s"
  by (simp add: pending_out_def in_queue_def)










lemma up_count_processed [simp]:
  "up_count pc (l\<lparr>producer_sig_processed := b\<rparr>) = up_count pc l"
  by (simp add: up_count_def)


section \<open>Properties of the single calls\<close>

subsection \<open>Next after shutdown\<close>

text \<open>
  C2, as stated: \<open>Next\<close> called once the shutdown signal is set aborts the
  process. It does not. The pipe below has been initialised and destroyed, so
  its signal is \<open>kDestroy\<close>; \<open>Next\<close> leaves through its first statement,
  \<open>if (producer_sig_ == kDestroy) return false\<close>, and returns false.
\<close>

theorem Next_after_Destroy_counterexample:
  "case Destroy P_Start (Init_closures (new_producer [1, 2 :: nat])
                          (ThreadedIter 8 kProduce False False)) of
     Some (pc, s) \<Rightarrow>
       producer_sig s = kDestroy \<and> snd (Next_enter s) = Returns None \<and>
       snd (Next_enter s) \<noteq> Abort
   | None \<Rightarrow> False"
  by code_simp

text \<open>
  C2, amended: in every pipe state whose signal is \<open>kDestroy\<close>, \<open>Next\<close> returns
  false at once; it does not abort, does not block, and changes nothing in
  the pipe.
\<close>

theorem Next_after_shutdown_returns_false:
  "producer_sig s = kDestroy \<Longrightarrow> Next_enter s = (s, Returns None)"
  by (simp add: Next_enter_def)

theorem Next_after_shutdown_returns_false_witness:
  "producer_sig ((ThreadedIter 8 kDestroy False True) :: nat titer) = kDestroy \<and>
   Next_enter ((ThreadedIter 8 kDestroy False True) :: nat titer) =
     (ThreadedIter 8 kDestroy False True, Returns None)"
proof -
  have h: "producer_sig ((ThreadedIter 8 kDestroy False True) :: nat titer) = kDestroy"
    by (simp add: ThreadedIter_def)
  show ?thesis
    using h Next_after_shutdown_returns_false [OF h] by simp
qed

text \<open>The abort of \<open>Next\<close> is the one for a rewind in progress.\<close>

lemma Next_during_rewind_aborts:
  "producer_sig s = kBeforeFirst \<Longrightarrow> Next_enter s = (s, Abort)"
  by (simp add: Next_enter_def)

subsection \<open>BeforeFirst after shutdown\<close>

text \<open>
  C10: when the signal is already \<open>kDestroy\<close>, \<open>BeforeFirst\<close> returns at once:
  the signal is not set to \<open>kBeforeFirst\<close>, the call does not wait for the
  acknowledgement, and the only change to the pipe is that the adapter's
  cell, if there is one, is appended to the free pool and \<open>out_data_\<close> is null.
\<close>

theorem BeforeFirst_after_shutdown:
  "producer_sig s = kDestroy \<Longrightarrow>
   BeforeFirst_enter s =
     (s\<lparr>free_cells := free_cells s @ (case out_data s of Some c \<Rightarrow> [c] | None \<Rightarrow> []),
        out_data := None\<rparr>, Returns ())"
  by (cases "out_data s") (simp_all add: BeforeFirst_enter_def)

theorem BeforeFirst_after_shutdown_witness:
  "producer_sig ((ThreadedIter 8 kDestroy False True)\<lparr>out_data := Some (3, 7 :: nat)\<rparr>) = kDestroy \<and>
   BeforeFirst_enter ((ThreadedIter 8 kDestroy False True)\<lparr>out_data := Some (3, 7 :: nat)\<rparr>) =
     ((ThreadedIter 8 kDestroy False True)\<lparr>free_cells := [(3, 7)]\<rparr>, Returns ())"
proof -
  have h: "producer_sig ((ThreadedIter 8 kDestroy False True)\<lparr>out_data := Some (3, 7 :: nat)\<rparr>)
             = kDestroy"
    by (simp add: ThreadedIter_def)
  show ?thesis
    using h BeforeFirst_after_shutdown [OF h] by (simp add: ThreadedIter_def)
qed

subsection \<open>Init twice\<close>

text \<open>
  The only check of \<open>Init\<close> is the one on \<open>producer_owned_\<close> in the overload
  taking a producer object, and \<open>producer_owned_\<close> is set only when ownership
  is passed.
\<close>

lemma Init_producer_Abort_iff:
  "Init_producer addr own p s = Abort \<longleftrightarrow> producer_owned s \<noteq> None"
  by (simp add: Init_producer_def)

lemma producer_owned_Init_closures:
  "producer_owned (Init_closures p s) = producer_owned s"
  by (simp add: Init_closures_def)

text \<open>
  C4 at a failing input: a default pipe, \<open>Init(&p, false)\<close>, then
  \<open>Init(&p, false)\<close> again. The second call passes the check, returns, and has
  started a second thread whose handle replaces the first.
\<close>

theorem Init_twice_not_detected:
  "case Init_producer 1 False (new_producer [1, 2, 3 :: nat])
          (ThreadedIter 8 kProduce False False) of
     Returns s1 \<Rightarrow>
       producer_thread s1 = Some 0 \<and>
       (case Init_producer 1 False (new_producer [1, 2, 3]) s1 of
          Returns s2 \<Rightarrow> spawned s2 = 2 \<and> producer_thread s2 = Some 1
        | _ \<Rightarrow> False)
   | _ \<Rightarrow> False"
  by (simp add: Init_producer_def Init_closures_def ThreadedIter_def)

subsection \<open>Destroy twice\<close>

text \<open>
  C3 at a failing input: a default pipe initialised with
  \<open>Init(&p, true)\<close>, the producer object at address 100, destroyed twice. The
  first \<open>Destroy\<close> deletes the thread object and the producer; the second one
  deletes the producer again, because \<open>producer_owned_\<close> is still set.
\<close>

theorem Destroy_twice_deletes_producer_twice:
  "case Init_producer 100 True (new_producer [1 :: nat, 2, 3])
          (ThreadedIter 8 kProduce False False) of
     Returns s1 \<Rightarrow>
       (case Destroy P_Start s1 of
          Some (pc2, s2) \<Rightarrow>
            (case Destroy pc2 s2 of
               Some (pc3, s3) \<Rightarrow>
                 deleted s2 = [ThreadObj 0, ProducerObj 100] \<and>
                 deleted s3 = [ThreadObj 0, ProducerObj 100, ProducerObj 100]
             | None \<Rightarrow> False)
        | None \<Rightarrow> False)
   | _ \<Rightarrow> False"
  by code_simp

subsection \<open>Destroy without Init\<close>

text \<open>
  A single-producer pipe that was constructed and never initialised has no
  thread, no cell and no owned producer, whatever its three uninitialised
  members hold: \<open>Destroy\<close> joins nothing, deletes nothing and returns.
\<close>

lemma Destroy_before_Init:
  "Destroy pc (ThreadedIter cap j1 j2 j3) = Some (pc, ThreadedIter cap j1 j2 j3)"
  by (simp add: Destroy_def ThreadedIter_def Destroy_cleanup_def)

text \<open>
  For comparison, a multi-producer pipe that was initialised: two workers over
  the items 10, 20, 30, destroyed right after \<open>Init\<close> and destroyed after the
  first item was read. The workers woken by \<open>SignalForKill\<close> run to their
  return, both are joined, the loader's thread exits, and \<open>Destroy\<close> returns.
\<close>

lemma MDestroy_after_Init_returns:
  "(case MDestroy (\<lambda>x tid. x + 1) P_Start
           (mpipe (mstart 2 kProduce False False (new_producer [10, 20, 30 :: nat]) 2 2
                     :: (nat, nat) msys)) of
      Returns (lpc, m) \<Rightarrow> lpc = P_Exit \<and> producer_threads m = [None, None] \<and>
                           m_deleted m = [ThreadObj 0, ThreadObj 1]
    | _ \<Rightarrow> False) \<and>
   (case mrun (\<lambda>x tid. x + 1)
           [M_Loader, M_Loader, M_Loader, M_Loader, M_Loader, M_Loader, M_Loader, M_Loader,
            M_Worker 1, M_Worker 0, M_Worker 0, M_Worker 0, M_Worker 0, M_Worker 1,
            M_CallNext, M_Resume]
           (mstart 2 kProduce False False (new_producer [10, 20, 30 :: nat]) 2 2
              :: (nat, nat) msys) of
      Some s \<Rightarrow>
        (case MDestroy (\<lambda>x tid. x + 1) (lthr s) (mpipe s) of
           Returns (lpc, m) \<Rightarrow> lpc = P_Exit \<and> producer_threads m = [None, None] \<and>
                                mouts s = [Some 21]
         | _ \<Rightarrow> False)
    | None \<Rightarrow> False)"
  by code_simp

text \<open>
  C9 at its failing inputs: a multi-producer pipe constructed over any base
  pipe, with any number of workers and any queue capacity, and not
  initialised. \<open>Destroy\<close>, and so the destructor, finds \<open>force_stopped_\<close> false,
  sets it, and calls \<open>SignalForKill\<close> through the null \<open>queue_\<close>.
\<close>

theorem MDestroy_before_Init_crashes:
  "case MultiThreadedIter (Some base) n cap of
     Returns m \<Rightarrow> mqueue m = None \<and> MDestroy f lpc m = Crash
   | _ \<Rightarrow> False"
  by (simp add: MultiThreadedIter_def fresh_miter_def MDestroy_def MDestroy_enter_def)

section \<open>Properties of the running pipe\<close>

subsection \<open>FIFO order\<close>

text \<open>
  C1, as stated: for every deterministic producer the pulls return
  \<open>a1, ..., an\<close>. A producer need not have a reset, and \<open>Init(next)\<close> leaves
  \<open>beforefirst\<close> at its default \<open>NotImplemented\<close>; the producer thread calls
  \<open>beforefirst()\<close> before anything else and aborts there. With the items 1, 2,
  3 and such a producer the thread is gone after its first step, the consumer
  sleeps in \<open>Next\<close>, nothing was returned, and neither thread can step.
\<close>

theorem Next_without_reset_counterexample:
  "case run [Produce, CallNext]
          (start 2 kProduce False False (producer_without_reset [1, 2, 3 :: nat])) of
     Some s \<Rightarrow>
       pthr s = P_Abort \<and> cthr s = C_Next \<and> outs s = [] \<and>
       outs s \<noteq> expected [1, 2, 3] 3 \<and>
       (case step Produce s of None \<Rightarrow> True | Some t \<Rightarrow> False) \<and>
       (case step Resume s of None \<Rightarrow> True | Some t \<Rightarrow> False)
   | None \<Rightarrow> False"
  by code_simp

text \<open>
  C1, amended: a pipe of any capacity is initialised with a deterministic
  producer of the items \<open>a1..an\<close> and then used by the producer thread and the
  consumer under an arbitrary schedule. In every state reached, the results of
  the \<open>k\<close> pulls completed in the current pass (\<open>Next(&p)\<close> or the adapter's
  \<open>Next()\<close> followed by \<open>Value()\<close>) are the first \<open>k\<close> elements of
  \<open>a1, ..., an, false, false, ...\<close>; if a pull has reported false, the
  end-of-stream flag is set and the ready queue is empty; and, when the
  producer has a reset and the capacity is not zero, a pull that sleeps
  returns after at most four steps of the producer thread.
\<close>

theorem pipe_fifo:
  assumes "run sch (start cap j1 j2 j3 p) = Some s"
  shows "outs s = expected (items p) (length (outs s)) \<and>
         (None \<in> set (outs s) \<longrightarrow> produce_end (pipe s) \<and> queue (pipe s) = []) \<and>
         (has_reset p \<and> 0 < cap \<and> (cthr s = C_Next \<or> cthr s = C_AdvNext) \<longrightarrow>
            (\<exists>n\<le>4. run (replicate n Produce @ [Resume]) s \<noteq> None))"
proof (cases "has_reset p")
  case True
  from sys_inv_run[OF sys_inv_start[OF True] assms] have inv: "sys_inv (items p) cap s" .
  then have ctl: "ctl_inv s" and str: "stream_inv (items p) s" by (simp_all add: sys_inv_def)
  have "outs s = expected (items p) (length (outs s))"
  proof (cases "cthr s = C_BF")
    case True
    with str show ?thesis by (simp add: stream_inv_def)
  next
    case False
    with ctl_inv_kProduce[OF ctl] str show ?thesis by (simp add: stream_inv_def)
  qed
  with stream_None[OF ctl str] pull_returns[OF inv] show ?thesis by blast
next
  case False
  from dead_inv_run[OF dead_inv_start[OF False] assms] have "outs s = []"
    by (simp add: dead_inv_def)
  with False show ?thesis by simp
qed

text \<open>
  The first scenario of the specification: capacity 2, the items 1 to 5, read
  one at a time through the adapter; and a consumer that pulls before
  anything was produced.
\<close>

theorem pipe_fifo_witness:
  "(case run [Produce, Produce, Produce, Produce,
          CallAdvance, Resume, Produce, Produce, Produce,
          CallAdvance, Resume, Produce, Produce, Produce,
          CallAdvance, Resume, Produce, Produce, Produce,
          CallAdvance, Resume, Produce, Produce, Produce,
          CallAdvance, Resume, Produce,
          CallAdvance, Resume, Produce, Resume]
          (start 2 kBeforeFirst True True (new_producer [1, 2, 3, 4, 5 :: nat])) of
     Some s \<Rightarrow> outs s = [Some 1, Some 2, Some 3, Some 4, Some 5, None] \<and>
               outs s = expected [1, 2, 3, 4, 5] (length (outs s)) \<and>
               None \<in> set (outs s) \<and> produce_end (pipe s) \<and> queue (pipe s) = []
   | None \<Rightarrow> False) \<and>
   (case run [CallNext] (start 2 kBeforeFirst True True (new_producer [1, 2, 3, 4, 5 :: nat])) of
     Some s \<Rightarrow> cthr s = C_Next \<and> (\<exists>n\<le>4. run (replicate n Produce @ [Resume]) s \<noteq> None)
   | None \<Rightarrow> False)"
proof -
  let ?sch = "[Produce, Produce, Produce, Produce,
          CallAdvance, Resume, Produce, Produce, Produce,
          CallAdvance, Resume, Produce, Produce, Produce,
          CallAdvance, Resume, Produce, Produce, Produce,
          CallAdvance, Resume, Produce, Produce, Produce,
          CallAdvance, Resume, Produce,
          CallAdvance, Resume, Produce, Resume]"
  let ?st = "start 2 kBeforeFirst True True (new_producer [1, 2, 3, 4, 5 :: nat])"
  have "case run ?sch ?st of
          Some s \<Rightarrow> outs s = [Some 1, Some 2, Some 3, Some 4, Some 5, None]
        | None \<Rightarrow> False"
    by code_simp
  then obtain s where h: "run ?sch ?st = Some s"
    and o: "outs s = [Some 1, Some 2, Some 3, Some 4, Some 5, None]"
    by (auto split: option.splits)
  from o have n: "None \<in> set (outs s)" by simp
  from pipe_fifo[OF h] n
  have e: "outs s = expected [1, 2, 3, 4, 5] (length (outs s))"
    and q: "produce_end (pipe s)" "queue (pipe s) = []"
    by (simp_all add: new_producer_def)
  have A: "case run ?sch ?st of
     Some s \<Rightarrow> outs s = [Some 1, Some 2, Some 3, Some 4, Some 5, None] \<and>
               outs s = expected [1, 2, 3, 4, 5] (length (outs s)) \<and>
               None \<in> set (outs s) \<and> produce_end (pipe s) \<and> queue (pipe s) = []
   | None \<Rightarrow> False"
    unfolding h option.case using o e n q by (intro conjI)
  have "case run [CallNext] ?st of Some s \<Rightarrow> cthr s = C_Next | None \<Rightarrow> False"
    by code_simp
  then obtain t where h2: "run [CallNext] ?st = Some t" and c: "cthr t = C_Next"
    by (auto split: option.splits)
  from pipe_fifo[OF h2] c
  have r: "\<exists>n\<le>4. run (replicate n Produce @ [Resume]) t \<noteq> None"
    by (simp add: new_producer_def)
  have B: "case run [CallNext] ?st of
     Some s \<Rightarrow> cthr s = C_Next \<and> (\<exists>n\<le>4. run (replicate n Produce @ [Resume]) s \<noteq> None)
   | None \<Rightarrow> False"
    unfolding h2 option.case using c r by (intro conjI)
  from A B show ?thesis by (rule conjI)
qed

subsection \<open>Rewind\<close>

lemma expected_hd:
  "0 < k \<Longrightarrow> hd (expected xs k) = (case xs of [] \<Rightarrow> None | x # ys \<Rightarrow> Some x)"
  by (cases xs; cases k) (simp_all add: expected_def)

text \<open>
  C5: with rewinds in the schedule, at any place and any number of them, every
  pass (the one after \<open>Init\<close> and the one after each \<open>BeforeFirst\<close>) yields the
  first elements of the same sequence \<open>a1, ..., an, false, ...\<close>, so a pass
  that is drained reproduces the whole of it; the first result of a pass is
  the first item again; and a \<open>BeforeFirst\<close> that sleeps returns after at most
  three steps of the producer thread. A rewind presupposes a producer with a
  reset; without one the thread has aborted at its start, no pass yields
  anything, and \<open>BeforeFirst\<close> is not acknowledged.
\<close>

theorem rewind_same_sequence:
  assumes "run sch (start cap j1 j2 j3 p) = Some s"
  shows "(\<forall>r \<in> set (passes s @ [outs s]).
            r = expected (items p) (length r) \<and>
            (r \<noteq> [] \<longrightarrow> hd r = (case items p of [] \<Rightarrow> None | x # ys \<Rightarrow> Some x))) \<and>
         (has_reset p \<and> cthr s = C_BF \<longrightarrow>
            (\<exists>n\<le>3. run (replicate n Produce @ [Resume]) s \<noteq> None))"
proof (cases "has_reset p")
  case True
  from sys_inv_run[OF sys_inv_start[OF True] assms] have inv: "sys_inv (items p) cap s" .
  then have ctl: "ctl_inv s" and str: "stream_inv (items p) s" by (simp_all add: sys_inv_def)
  have "outs s = expected (items p) (length (outs s))"
  proof (cases "cthr s = C_BF")
    case True
    with str show ?thesis by (simp add: stream_inv_def)
  next
    case False
    with ctl_inv_kProduce[OF ctl] str show ?thesis by (simp add: stream_inv_def)
  qed
  moreover from str have "\<forall>r \<in> set (passes s). r = expected (items p) (length r)"
    by (simp add: stream_inv_def)
  ultimately have *: "\<forall>r \<in> set (passes s @ [outs s]). r = expected (items p) (length r)"
    by simp
  have "\<forall>r \<in> set (passes s @ [outs s]).
          r \<noteq> [] \<longrightarrow> hd r = (case items p of [] \<Rightarrow> None | x # ys \<Rightarrow> Some x)"
  proof (intro ballI impI)
    fix r assume "r \<in> set (passes s @ [outs s])" and "r \<noteq> []"
    with * have "r = expected (items p) (length r)" and "0 < length r" by auto
    with expected_hd[of "length r" "items p"] show "hd r = (case items p of [] \<Rightarrow> None | x # ys \<Rightarrow> Some x)"
      by simp
  qed
  with * rewind_returns[OF inv] show ?thesis by auto
next
  case False
  from dead_inv_run[OF dead_inv_start[OF False] assms]
  have "outs s = []" "\<forall>r \<in> set (passes s). r = []"
    by (simp_all add: dead_inv_def)
  with False show ?thesis by auto
qed

text \<open>
  The second scenario of the specification, continued: capacity 2, the items
  1 to 5; the consumer reads 1 and 2 and rewinds, drains the pipe, rewinds
  again and drains it again. The last step of the second schedule leaves the
  consumer asleep in \<open>BeforeFirst\<close>.
\<close>

theorem rewind_same_sequence_witness:
  "(case run [CallAdvance, Resume, Produce, Produce, Produce, Produce, Resume,
   CallAdvance, Resume, Produce, Produce, Produce, Produce, Resume,
   CallBeforeFirst, Produce, Produce, Produce, Resume, CallAdvance, Resume,
   Produce, Produce, Produce, Produce, Resume, CallAdvance, Resume, Produce,
   Produce, Produce, Produce, Resume, CallAdvance, Resume, Produce, Produce,
   Produce, Produce, Resume, CallAdvance, Resume, Produce, Produce, Produce,
   Produce, CallAdvance, Resume, Produce, Produce, Produce, CallAdvance,
   Resume, CallBeforeFirst, Produce, Produce, Produce, Resume, CallAdvance,
   Resume, Produce, Produce, Produce, Produce, Resume, CallAdvance, Resume,
   Produce, Produce, Produce, Produce, CallAdvance, Resume, Produce,
   Produce, Produce, Produce, CallAdvance, Resume, Produce, Produce,
   Produce, Produce, CallAdvance, Resume, Produce, CallAdvance, Resume]
          (start 2 kBeforeFirst True True (new_producer [1, 2, 3, 4, 5 :: nat])) of
     Some s \<Rightarrow>
       passes s = [[Some 1, Some 2], [Some 1, Some 2, Some 3, Some 4, Some 5, None]] \<and>
       outs s = [Some 1, Some 2, Some 3, Some 4, Some 5, None] \<and>
       (\<forall>r \<in> set (passes s @ [outs s]).
          r = expected [1, 2, 3, 4, 5] (length r) \<and> (r \<noteq> [] \<longrightarrow> hd r = Some 1))
   | None \<Rightarrow> False) \<and>
   (case run [CallBeforeFirst]
          (start 2 kBeforeFirst True True (new_producer [1, 2, 3, 4, 5 :: nat])) of
     Some s \<Rightarrow> cthr s = C_BF \<and> (\<exists>n\<le>3. run (replicate n Produce @ [Resume]) s \<noteq> None)
   | None \<Rightarrow> False)"
proof -
  let ?sch = "[CallAdvance, Resume, Produce, Produce, Produce, Produce, Resume,
   CallAdvance, Resume, Produce, Produce, Produce, Produce, Resume,
   CallBeforeFirst, Produce, Produce, Produce, Resume, CallAdvance, Resume,
   Produce, Produce, Produce, Produce, Resume, CallAdvance, Resume, Produce,
   Produce, Produce, Produce, Resume, CallAdvance, Resume, Produce, Produce,
   Produce, Produce, Resume, CallAdvance, Resume, Produce, Produce, Produce,
   Produce, CallAdvance, Resume, Produce, Produce, Produce, CallAdvance,
   Resume, CallBeforeFirst, Produce, Produce, Produce, Resume, CallAdvance,
   Resume, Produce, Produce, Produce, Produce, Resume, CallAdvance, Resume,
   Produce, Produce, Produce, Produce, CallAdvance, Resume, Produce,
   Produce, Produce, Produce, CallAdvance, Resume, Produce, Produce,
   Produce, Produce, CallAdvance, Resume, Produce, CallAdvance, Resume]"
  let ?st = "start 2 kBeforeFirst True True (new_producer [1, 2, 3, 4, 5 :: nat])"
  have "case run ?sch ?st of
          Some s \<Rightarrow>
            passes s = [[Some 1, Some 2], [Some 1, Some 2, Some 3, Some 4, Some 5, None]] \<and>
            outs s = [Some 1, Some 2, Some 3, Some 4, Some 5, None]
        | None \<Rightarrow> False"
    by code_simp
  then obtain s where h: "run ?sch ?st = Some s"
    and o: "passes s = [[Some 1, Some 2], [Some 1, Some 2, Some 3, Some 4, Some 5, None]]"
           "outs s = [Some 1, Some 2, Some 3, Some 4, Some 5, None]"
    by (auto split: option.splits)
  from rewind_same_sequence[OF h]
  have e: "\<forall>r \<in> set (passes s @ [outs s]).
             r = expected [1, 2, 3, 4, 5] (length r) \<and> (r \<noteq> [] \<longrightarrow> hd r = Some 1)"
    by (simp add: new_producer_def)
  have A: "case run ?sch ?st of
     Some s \<Rightarrow>
       passes s = [[Some 1, Some 2], [Some 1, Some 2, Some 3, Some 4, Some 5, None]] \<and>
       outs s = [Some 1, Some 2, Some 3, Some 4, Some 5, None] \<and>
       (\<forall>r \<in> set (passes s @ [outs s]).
          r = expected [1, 2, 3, 4, 5] (length r) \<and> (r \<noteq> [] \<longrightarrow> hd r = Some 1))
   | None \<Rightarrow> False"
    unfolding h option.case using o e by (intro conjI)
  have "case run [CallBeforeFirst] ?st of Some s \<Rightarrow> cthr s = C_BF | None \<Rightarrow> False"
    by code_simp
  then obtain t where h2: "run [CallBeforeFirst] ?st = Some t" and c: "cthr t = C_BF"
    by (auto split: option.splits)
  from rewind_same_sequence[OF h2] c
  have r: "\<exists>n\<le>3. run (replicate n Produce @ [Resume]) t \<noteq> None"
    by (simp add: new_producer_def)
  have B: "case run [CallBeforeFirst] ?st of
     Some s \<Rightarrow> cthr s = C_BF \<and> (\<exists>n\<le>3. run (replicate n Produce @ [Resume]) s \<noteq> None)
   | None \<Rightarrow> False"
    unfolding h2 option.case using c r by (intro conjI)
  from A B show ?thesis by (rule conjI)
qed

subsection \<open>Number of cells\<close>

text \<open>
  C6, as stated: the cells alive never exceed the capacity plus one. A
  consumer may keep what \<open>Next(&p)\<close> gave it; with capacity 1 and three pulls
  without a \<open>Recycle\<close> there are three cells, all on loan, each allocated by the
  producer when it found the free pool empty and the ready queue below
  capacity.
\<close>

theorem cells_exceed_capacity_counterexample:
  "case run [Produce, Produce, Produce, Produce, CallNext,
             Produce, Produce, Produce, CallNext,
             Produce, Produce, Produce, CallNext]
          (start 1 kProduce False False (new_producer [1, 2, 3 :: nat])) of
     Some s \<Rightarrow> length (held s) = 3 \<and> alive s = 3 \<and> \<not> alive s \<le> 1 + 1
   | None \<Rightarrow> False"
  by code_simp

text \<open>
  C6, amended: under every schedule the cells alive (free pool, ready queue,
  on loan to the consumer, in flight in the producer) never exceed the
  capacity plus the largest number of cells that were on loan to the consumer
  at one time; for a consumer that never calls \<open>Next(&p)\<close>, and so holds the
  adapter's cell at most, they never exceed the capacity plus one.
\<close>

theorem cells_bounded_by_capacity_and_loans:
  assumes "run sch (start cap j1 j2 j3 p) = Some s"
  shows "alive s \<le> cap + peak s \<and> (CallNext \<notin> set sch \<longrightarrow> alive s \<le> cap + 1)"
proof -
  have "max_capacity (pipe (start cap j1 j2 j3 p)) = cap"
    by (simp add: start_def Init_closures_def ThreadedIter_def)
  from cap_inv_run[OF cap_inv_start this assms] have "alive s \<le> cap + peak s"
    by (simp add: cap_inv_def)
  moreover have "adapter_only (start cap j1 j2 j3 p)"
    by (simp add: adapter_only_def start_def)
  from adapter_only_run[OF this assms] have "CallNext \<notin> set sch \<Longrightarrow> peak s \<le> 1"
    by (simp add: adapter_only_def)
  ultimately show ?thesis by auto
qed

theorem cells_bounded_by_capacity_and_loans_witness:
  "CallNext \<notin> set [Produce, Produce, Produce, Produce, Produce, CallAdvance, Resume,
   Produce, Produce, Produce, Produce, CallAdvance, Resume, Produce,
   Produce, Produce, Produce] \<and>
   (case run [Produce, Produce, Produce, Produce, Produce, CallAdvance, Resume,
   Produce, Produce, Produce, Produce, CallAdvance, Resume, Produce,
   Produce, Produce, Produce]
          (start 1 kProduce False False (new_producer [1, 2, 3 :: nat])) of
     Some s \<Rightarrow> alive s = 2 \<and> alive s \<le> 1 + peak s \<and> alive s \<le> 1 + 1
   | None \<Rightarrow> False)"
proof -
  let ?sch = "[Produce, Produce, Produce, Produce, Produce, CallAdvance, Resume,
   Produce, Produce, Produce, Produce, CallAdvance, Resume, Produce,
   Produce, Produce, Produce]"
  let ?st = "start 1 kProduce False False (new_producer [1, 2, 3 :: nat])"
  have n: "CallNext \<notin> set ?sch" by simp
  have "case run ?sch ?st of Some s \<Rightarrow> alive s = 2 | None \<Rightarrow> False"
    by code_simp
  then obtain s where h: "run ?sch ?st = Some s" and a: "alive s = 2"
    by (auto split: option.splits)
  from cells_bounded_by_capacity_and_loans[OF h] n
  have b: "alive s \<le> 1 + peak s" "alive s \<le> 1 + 1"
    by blast+
  have "case run ?sch ?st of
     Some s \<Rightarrow> alive s = 2 \<and> alive s \<le> 1 + peak s \<and> alive s \<le> 1 + 1
   | None \<Rightarrow> False"
    unfolding h option.case using a b by (intro conjI)
  with n show ?thesis by (rule conjI)
qed

section \<open>Properties of the multi-producer pipe\<close>

subsection \<open>Completeness and the null-cell counter\<close>

text \<open>
  C7, as stated: with \<open>N\<close> workers over \<open>M\<close> source items \<open>Next\<close> returns true
  exactly \<open>M\<close> times. The number of workers is a \<open>size_t\<close> that the
  constructor takes as it is; with no worker and the three items 10, 20, 30
  the first \<open>Next\<close> finds \<open>null_cell_num_ >= thread_num_\<close> and reports the end of
  the stream without having returned an item. And with one worker over a
  shared queue of capacity 0 the worker sleeps in \<open>queue_->Push\<close> with the
  first item, the loader's thread fills its own queue and sleeps, and the
  first \<open>Next\<close> sleeps in \<open>queue_->Pop\<close>: no thread can take a step, and
  \<open>Next\<close> has returned nothing.
\<close>

theorem multi_producer_no_worker_counterexample:
  "(case mrun (\<lambda>x tid. x + 1) [M_CallNext]
          ((mstart 2 kProduce False False (new_producer [10, 20, 30 :: nat]) 0 2) :: (nat, nat) msys) of
     Some s \<Rightarrow> mcthr s = MC_Idle \<and> mouts s = [None] \<and> trues s = 0 \<and>
               trues s \<noteq> length (items (new_producer [10, 20, 30 :: nat]))
   | None \<Rightarrow> False) \<and>
   (case mrun (\<lambda>x tid. x + 1)
          [M_CallNext, M_Worker 0, M_Loader, M_Loader, M_Loader, M_Loader,
           M_Worker 0, M_Worker 0, M_Worker 0, M_Loader, M_Loader, M_Loader,
           M_Loader, M_Loader, M_Loader, M_Loader]
          ((mstart 2 kProduce False False (new_producer [10, 20, 30 :: nat]) 1 0) :: (nat, nat) msys) of
     Some s \<Rightarrow>
       mcthr s = MC_Pop Direct \<and> mouts s = [] \<and>
       lthr s = P_Wait \<and> producer_threads (mpipe s) = [Some (W_Push (0, 11) (0, 10))] \<and>
       (case mstep (\<lambda>x tid. x + 1) M_Loader s of None \<Rightarrow> True | Some t \<Rightarrow> False) \<and>
       (case mstep (\<lambda>x tid. x + 1) (M_Worker 0) s of None \<Rightarrow> True | Some t \<Rightarrow> False) \<and>
       (case mstep (\<lambda>x tid. x + 1) M_Resume s of None \<Rightarrow> True | Some t \<Rightarrow> False)
   | None \<Rightarrow> False)"
  by code_simp

text \<open>
  C7, amended: a multi-producer pipe with \<open>n\<close> workers is constructed over a
  loader whose producer has a reset and yields the \<open>M\<close> items of \<open>items p\<close>,
  initialised, and then used by the loader thread, the workers and the
  consumer under an arbitrary schedule without a rewind. In every state
  reached:
  \<^item> every source item is in exactly one place (upstream, with a worker, in
    the shared queue, returned), so \<open>Next\<close> has reported true at most \<open>M\<close>
    times;
  \<^item> the workers that are done are as many as the sentinels in the queue plus
    \<open>null_cell_num_\<close> (each sentinel popped added one to the counter), and the
    counter is at most \<open>n\<close>;
  \<^item> if a \<open>Next\<close> has reported false, the counter has reached \<open>n\<close>;
  \<^item> once the counter has reached \<open>n\<close>, with \<open>n\<close> positive, \<open>Next\<close> has
    reported true exactly \<open>M\<close> times;
  \<^item> right after a \<open>Next\<close> that reported true, and while a \<open>Next\<close> is at
    \<open>queue_->Pop\<close>, the counter is below \<open>n\<close>;
  \<^item> a \<open>Next\<close> called when the counter has reached \<open>n\<close> reports false at
    once and leaves the pipe as it is;
  \<^item> when both capacities are positive, a call in progress returns after
    some steps of the loader's thread, of the workers and of the consumer
    inside the call;
  \<^item> when both capacities and \<open>n\<close> are positive, the consumer can go on
    until a \<open>Next\<close> reports false, and has then been given true exactly \<open>M\<close>
    times.
\<close>

theorem multi_producer_complete:
  assumes "mrun f sch (mstart lcap j1 j2 j3 p n qcap) = Some s"
    and "M_CallBeforeFirst \<notin> set sch" and "has_reset p"
  shows "upstream s + in_workers s + in_queue s + trues s = length (items p) \<and>
         length (filter slot_done (producer_threads (mpipe s)))
           = length (filter sentinel (q_items (mpipe s))) + null_cell_num (mpipe s) \<and>
         null_cell_num (mpipe s) \<le> n \<and>
         (None \<in> set (mouts s) \<longrightarrow> n \<le> null_cell_num (mpipe s)) \<and>
         (0 < n \<and> n \<le> null_cell_num (mpipe s) \<longrightarrow> trues s = length (items p)) \<and>
         (mcthr s = MC_Idle \<and> mouts s \<noteq> [] \<and> last (mouts s) \<noteq> None \<longrightarrow>
            null_cell_num (mpipe s) < n) \<and>
         ((\<exists>c. mcthr s = MC_Pop c) \<longrightarrow> null_cell_num (mpipe s) < n) \<and>
         (mcthr s = MC_Idle \<and> n \<le> null_cell_num (mpipe s) \<longrightarrow>
            mstep f M_CallNext s = Some (s\<lparr>mouts := mouts s @ [None]\<rparr>)) \<and>
         (0 < lcap \<and> 0 < qcap \<and> mcthr s \<noteq> MC_Idle \<longrightarrow>
            (\<exists>sch' s'. mrun f sch' s = Some s' \<and> list_all internal sch' \<and>
                       mcthr s' = MC_Idle \<and> length (mouts s') = Suc (length (mouts s)))) \<and>
         (0 < lcap \<and> 0 < qcap \<and> 0 < n \<longrightarrow>
            (\<exists>sch' s'. mrun f sch' s = Some s' \<and> M_CallBeforeFirst \<notin> set sch' \<and>
                       None \<in> set (mouts s') \<and> trues s' = length (items p)))"
proof -
  note st = minv_mstart[OF assms(3), of n qcap lcap j1 j2 j3]
  from minv_run[OF st assms(1)] have inv: "minv n qcap s" .
  from mlive_inv_run[OF mlive_inv_mstart st assms(1)] have live: "mlive_inv lcap s" .
  from mcount_inv_run[OF mcount_inv_mstart st assms(1,2)]
  have cnt: "mcount_inv n (items p) s" .
  from inv have cfg: "mcfg_inv n qcap (mpipe s)" and mq: "mq_inv s"
    by (simp_all add: minv_def)
  from cfg have tn: "thread_num (mpipe s) = n" and len: "length (producer_threads (mpipe s)) = n"
    by (simp_all add: mcfg_inv_def)
  from mq have acc: "length (filter slot_done (producer_threads (mpipe s)))
           = length (filter sentinel (q_items (mpipe s))) + null_cell_num (mpipe s)"
    by (simp add: mq_inv_def)
  have "length (filter slot_done (producer_threads (mpipe s))) \<le> n"
    using length_filter_le[of slot_done "producer_threads (mpipe s)"] len by simp
  with acc have le: "null_cell_num (mpipe s) \<le> n" by simp
  have fin: "0 < n \<and> n \<le> null_cell_num (mpipe s) \<longrightarrow> trues s = length (items p)"
    using finished_all_delivered[OF cnt inv] by blast
  have call: "mcthr s = MC_Idle \<and> n \<le> null_cell_num (mpipe s) \<longrightarrow>
            mstep f M_CallNext s = Some (s\<lparr>mouts := mouts s @ [None]\<rparr>)"
    using tn by (simp add: MNext_finished_def)
  from cnt have nr: "\<not> in_rewind (mcthr s)" by (simp add: mcount_inv_def)
  have ret: "0 < lcap \<and> 0 < qcap \<and> mcthr s \<noteq> MC_Idle \<longrightarrow>
            (\<exists>sch' s'. mrun f sch' s = Some s' \<and> list_all internal sch' \<and>
                       mcthr s' = MC_Idle \<and> length (mouts s') = Suc (length (mouts s)))"
    using call_returns[OF inv live _ _ nr, of f] by blast
  have all: "0 < lcap \<and> 0 < qcap \<and> 0 < n \<longrightarrow>
            (\<exists>sch' s'. mrun f sch' s = Some s' \<and> M_CallBeforeFirst \<notin> set sch' \<and>
                       None \<in> set (mouts s') \<and> trues s' = length (items p))"
  proof
    assume a: "0 < lcap \<and> 0 < qcap \<and> 0 < n"
    with can_finish[OF inv live cnt, of f] obtain sch' s'
      where r: "mrun f sch' s = Some s'" and nb: "M_CallBeforeFirst \<notin> set sch'"
        and e: "None \<in> set (mouts s')"
      by blast
    note inv' = minv_run[OF inv r] and cnt' = mcount_inv_run[OF cnt inv r nb]
    from cnt' e have "n \<le> null_cell_num (mpipe s')" by (simp add: mcount_inv_def)
    from finished_all_delivered[OF cnt' inv' this] a have "trues s' = length (items p)" by simp
    with r nb e show "\<exists>sch' s'. mrun f sch' s = Some s' \<and> M_CallBeforeFirst \<notin> set sch' \<and>
                       None \<in> set (mouts s') \<and> trues s' = length (items p)"
      by blast
  qed
  from cnt have
    "upstream s + in_workers s + in_queue s + trues s = length (items p)"
    "None \<in> set (mouts s) \<longrightarrow> n \<le> null_cell_num (mpipe s)"
    "mcthr s = MC_Idle \<and> mouts s \<noteq> [] \<and> last (mouts s) \<noteq> None \<longrightarrow>
            null_cell_num (mpipe s) < n"
    "(\<exists>c. mcthr s = MC_Pop c) \<longrightarrow> null_cell_num (mpipe s) < n"
    by (simp_all add: mcount_inv_def)
  with acc le fin call ret all show ?thesis by (intro conjI)
qed

text \<open>
  Two workers and the source items 10, 20, 30, each transformed by adding one.
  Worker 1 pulls the first item, worker 0 the second and pushes first, so the
  consumer sees 21 before 11; the third result and the two sentinels follow.
  The two shorter schedules stop while the first \<open>Next\<close> is at the pop, and
  right after it has returned.
\<close>

theorem multi_producer_complete_witness:
  "(case mrun (\<lambda>x tid. x + 1)
      [M_Loader, M_Loader, M_Loader, M_Loader, M_Loader, M_Loader, M_Loader, M_Loader,
      M_Worker 1, M_Worker 0, M_Worker 0, M_Worker 0, M_Worker 0, M_Worker 1, M_Worker 1,
      M_Worker 1, M_CallNext]
      (mstart 2 kProduce False False (new_producer [10, 20, 30 :: nat]) 2 2) of
      Some s \<Rightarrow>
        mcthr s = MC_Pop Direct \<and> null_cell_num (mpipe s) < 2 \<and>
        (\<exists>sch' s'. mrun (\<lambda>x tid. x + 1) sch' s = Some s' \<and> list_all internal sch' \<and>
                    mcthr s' = MC_Idle \<and> length (mouts s') = Suc (length (mouts s))) \<and>
        (\<exists>sch' s'. mrun (\<lambda>x tid. x + 1) sch' s = Some s' \<and> M_CallBeforeFirst \<notin> set sch' \<and>
                    None \<in> set (mouts s') \<and>
                    trues s' = length (items (new_producer [10, 20, 30 :: nat])))
    | None \<Rightarrow> False) \<and>
   (case mrun (\<lambda>x tid. x + 1)
      [M_Loader, M_Loader, M_Loader, M_Loader, M_Loader, M_Loader, M_Loader, M_Loader,
      M_Worker 1, M_Worker 0, M_Worker 0, M_Worker 0, M_Worker 0, M_Worker 1, M_Worker 1,
      M_Worker 1, M_CallNext, M_Resume]
      (mstart 2 kProduce False False (new_producer [10, 20, 30 :: nat]) 2 2) of
      Some s \<Rightarrow> mcthr s = MC_Idle \<and> mouts s = [Some 21] \<and> null_cell_num (mpipe s) < 2
    | None \<Rightarrow> False) \<and>
   (case mrun (\<lambda>x tid. x + 1)
      [M_Loader, M_Loader, M_Loader, M_Loader, M_Loader, M_Loader, M_Loader, M_Loader,
      M_Worker 1, M_Worker 0, M_Worker 0, M_Worker 0, M_Worker 0, M_Worker 1, M_Worker 1,
      M_Worker 1, M_CallNext, M_Resume, M_CallNext, M_Resume, M_CallNext, M_Worker 0,
      M_Worker 1, M_Loader, M_Loader, M_Loader, M_Worker 0, M_Worker 0, M_Worker 0,
      M_Worker 0, M_Resume, M_CallNext, M_Worker 0, M_Loader, M_Loader, M_Worker 0,
      M_Worker 0, M_Worker 0, M_Resume, M_Worker 1, M_Worker 1, M_Worker 1, M_Resume]
      (mstart 2 kProduce False False (new_producer [10, 20, 30 :: nat]) 2 2) of
      Some s \<Rightarrow> mouts s = [Some 21, Some 11, Some 31, None] \<and> mcthr s = MC_Idle \<and>
                trues s = length (items (new_producer [10, 20, 30 :: nat])) \<and>
                null_cell_num (mpipe s) = 2 \<and>
                mstep (\<lambda>x tid. x + 1) M_CallNext s = Some (s\<lparr>mouts := mouts s @ [None]\<rparr>)
    | None \<Rightarrow> False)"
proof -
  let ?f = "(\<lambda>x tid. x + 1) :: nat \<Rightarrow> nat \<Rightarrow> nat"
  let ?st = "(mstart 2 kProduce False False (new_producer [10, 20, 30 :: nat]) 2 2) :: (nat, nat) msys"
  let ?a = "[M_Loader, M_Loader, M_Loader, M_Loader, M_Loader, M_Loader, M_Loader, M_Loader,
      M_Worker 1, M_Worker 0, M_Worker 0, M_Worker 0, M_Worker 0, M_Worker 1, M_Worker 1,
      M_Worker 1, M_CallNext]"
  let ?b = "[M_Loader, M_Loader, M_Loader, M_Loader, M_Loader, M_Loader, M_Loader, M_Loader,
      M_Worker 1, M_Worker 0, M_Worker 0, M_Worker 0, M_Worker 0, M_Worker 1, M_Worker 1,
      M_Worker 1, M_CallNext, M_Resume]"
  let ?c = "[M_Loader, M_Loader, M_Loader, M_Loader, M_Loader, M_Loader, M_Loader, M_Loader,
      M_Worker 1, M_Worker 0, M_Worker 0, M_Worker 0, M_Worker 0, M_Worker 1, M_Worker 1,
      M_Worker 1, M_CallNext, M_Resume, M_CallNext, M_Resume, M_CallNext, M_Worker 0,
      M_Worker 1, M_Loader, M_Loader, M_Loader, M_Worker 0, M_Worker 0, M_Worker 0,
      M_Worker 0, M_Resume, M_CallNext, M_Worker 0, M_Loader, M_Loader, M_Worker 0,
      M_Worker 0, M_Worker 0, M_Resume, M_Worker 1, M_Worker 1, M_Worker 1, M_Resume]"
  have na: "M_CallBeforeFirst \<notin> set ?a" by simp
  have nb: "M_CallBeforeFirst \<notin> set ?b" by simp
  have nc: "M_CallBeforeFirst \<notin> set ?c" by simp
  have hr: "has_reset (new_producer [10, 20, 30 :: nat])" by (simp add: new_producer_def)
  have "case mrun ?f ?a ?st of Some s \<Rightarrow> mcthr s = MC_Pop Direct | None \<Rightarrow> False"
    by code_simp
  then obtain sa where ha: "mrun ?f ?a ?st = Some sa" and pa: "mcthr sa = MC_Pop Direct"
    by (rule case_optionE)
  note ta = multi_producer_complete[OF ha na hr]
  from ta[THEN conjunct2, THEN conjunct2, THEN conjunct2, THEN conjunct2, THEN conjunct2,
          THEN conjunct2, THEN conjunct1] pa
  have ra: "null_cell_num (mpipe sa) < 2" by simp
  from ta[THEN conjunct2, THEN conjunct2, THEN conjunct2, THEN conjunct2, THEN conjunct2,
          THEN conjunct2, THEN conjunct2, THEN conjunct2, THEN conjunct1] pa
  have la: "\<exists>sch' s'. mrun ?f sch' sa = Some s' \<and> list_all internal sch' \<and>
                    mcthr s' = MC_Idle \<and> length (mouts s') = Suc (length (mouts sa))"
    by simp
  from ta[THEN conjunct2, THEN conjunct2, THEN conjunct2, THEN conjunct2, THEN conjunct2,
          THEN conjunct2, THEN conjunct2, THEN conjunct2, THEN conjunct2]
  have fa: "\<exists>sch' s'. mrun ?f sch' sa = Some s' \<and> M_CallBeforeFirst \<notin> set sch' \<and>
                    None \<in> set (mouts s') \<and>
                    trues s' = length (items (new_producer [10, 20, 30 :: nat]))"
    by simp
  have "case mrun ?f ?b ?st of Some s \<Rightarrow> mcthr s = MC_Idle \<and> mouts s = [Some 21]
        | None \<Rightarrow> False"
    by code_simp
  then obtain sb where hb: "mrun ?f ?b ?st = Some sb"
    and qb: "mcthr sb = MC_Idle \<and> mouts sb = [Some 21]"
    by (rule case_optionE)
  then have pb: "mcthr sb = MC_Idle" "mouts sb = [Some 21]" by simp_all
  note tb = multi_producer_complete[OF hb nb hr]
  from tb[THEN conjunct2, THEN conjunct2, THEN conjunct2, THEN conjunct2, THEN conjunct2,
          THEN conjunct1] pb
  have rb: "null_cell_num (mpipe sb) < 2" by simp
  have "case mrun ?f ?c ?st of
          Some s \<Rightarrow> mouts s = [Some 21, Some 11, Some 31, None] \<and> mcthr s = MC_Idle
        | None \<Rightarrow> False"
    by code_simp
  then obtain sc where hc: "mrun ?f ?c ?st = Some sc"
    and qc: "mouts sc = [Some 21, Some 11, Some 31, None] \<and> mcthr sc = MC_Idle"
    by (rule case_optionE)
  then have pc: "mouts sc = [Some 21, Some 11, Some 31, None]" "mcthr sc = MC_Idle"
    by simp_all
  from pc(1) have none: "None \<in> set (mouts sc)" by simp
  note t = multi_producer_complete[OF hc nc hr]
  from t[THEN conjunct2, THEN conjunct2, THEN conjunct2, THEN conjunct1] none
  have ge: "2 \<le> null_cell_num (mpipe sc)" by (rule mp)
  moreover from t[THEN conjunct2, THEN conjunct2, THEN conjunct1]
  have "null_cell_num (mpipe sc) \<le> 2" .
  ultimately have eq: "null_cell_num (mpipe sc) = 2" by simp
  from t[THEN conjunct2, THEN conjunct2, THEN conjunct2, THEN conjunct2, THEN conjunct1] ge
  have tr: "trues sc = length (items (new_producer [10, 20, 30 :: nat]))" by simp
  from pc(2) ge have "mcthr sc = MC_Idle \<and> 2 \<le> null_cell_num (mpipe sc)" by (rule conjI)
  with t[THEN conjunct2, THEN conjunct2, THEN conjunct2, THEN conjunct2, THEN conjunct2,
         THEN conjunct2, THEN conjunct2, THEN conjunct1]
  have cl: "mstep ?f M_CallNext sc = Some (sc\<lparr>mouts := mouts sc @ [None]\<rparr>)"
    by (rule mp)
  show ?thesis
    unfolding ha hb hc option.case using pa ra la fa pb rb pc eq tr cl by (intro conjI)
qed

subsection \<open>Rewind\<close>




end
